theory Spec2Isabelle
  imports Main
begin

section \<open>Text\<close>

text \<open>
  A Python \<open>str\<close> is a sequence of Unicode code points. File contents are modelled as
  the text that \<open>f.read()\<close> returns and \<open>f.write(content)\<close> takes; identifiers of the
  script itself (paths, console lines) are plain strings.
\<close>

type_synonym codepoint = nat
type_synonym str = "codepoint list"

definition lit :: "string \<Rightarrow> str" where
  "lit = map of_char"

definition lines :: "string list \<Rightarrow> str" where
  \<comment> \<open>every line of a triple-quoted string, each ended by its newline\<close>
  "lines ls = concat (map (\<lambda>l. lit l @ [10]) ls)"

definition isspace :: "codepoint \<Rightarrow> bool" where
  \<comment> \<open>what \<open>\s\<close> matches in a \<open>str\<close> pattern: the code points of \<open>str.isspace\<close>\<close>
  "isspace c \<longleftrightarrow>
     (9 \<le> c \<and> c \<le> 13) \<or> (28 \<le> c \<and> c \<le> 32) \<or> c = 133 \<or> c = 160 \<or> c = 5760 \<or>
     (8192 \<le> c \<and> c \<le> 8202) \<or> c = 8232 \<or> c = 8233 \<or> c = 8239 \<or> c = 8287 \<or> c = 12288"

section \<open>The fragment of \<open>re\<close> that the script uses\<close>

text \<open>
  Both patterns are sequences of literal characters, character classes, greedy
  repetitions of \<open>\s\<close>, one capturing group and the anchor \<open>$\<close>. A pattern is the list
  of its items in the order they are written.
\<close>

datatype atom = Chr char | OneOf "char list" | Space

datatype item =
    One atom    \<comment> \<open>a single character\<close>
  | Star atom   \<comment> \<open>\<open>x*\<close>, greedy\<close>
  | Plus atom   \<comment> \<open>\<open>x+\<close>, greedy\<close>
  | Open        \<comment> \<open>\<open>(\<close> of group 1\<close>
  | Close       \<comment> \<open>\<open>)\<close> of group 1\<close>
  | Eos         \<comment> \<open>\<open>$\<close> without \<open>re.MULTILINE\<close>\<close>

fun atom_ok :: "atom \<Rightarrow> codepoint \<Rightarrow> bool" where
  "atom_ok (Chr c) x = (x = of_char c)"
| "atom_ok (OneOf cs) x = (x \<in> set (map of_char cs))"
| "atom_ok Space x = isspace x"

definition chars :: "string \<Rightarrow> item list" where
  "chars l = map (\<lambda>c. One (Chr c)) l"

record match =
  matched :: str
  group1 :: "str option"
  remaining :: str

text \<open>
  \<open>rmatch items adv acc gs cap s\<close> matches \<open>items\<close> against \<open>s\<close> at the current
  position, by backtracking: \<open>acc\<close> is the text consumed since the match started, \<open>gs\<close>
  the offset where group 1 opened, \<open>cap\<close> what group 1 captured. A greedy repetition
  first takes one more character and gives it back when the rest of the pattern fails.
  \<open>$\<close> holds at the end of the text and before a newline that ends the text. With
  \<open>adv\<close> set an empty match is refused (the engine's rule after an empty match).
\<close>

fun rmatch :: "item list \<Rightarrow> bool \<Rightarrow> str \<Rightarrow> nat \<Rightarrow> str option \<Rightarrow> str \<Rightarrow> match option" where
  "rmatch [] adv acc gs cap s =
     (if adv \<and> acc = [] then None
      else Some \<lparr>matched = acc, group1 = cap, remaining = s\<rparr>)"
| "rmatch (One a # r) adv acc gs cap [] = None"
| "rmatch (One a # r) adv acc gs cap (c # cs) =
     (if atom_ok a c then rmatch r adv (acc @ [c]) gs cap cs else None)"
| "rmatch (Plus a # r) adv acc gs cap [] = None"
| "rmatch (Plus a # r) adv acc gs cap (c # cs) =
     (if atom_ok a c then rmatch (Star a # r) adv (acc @ [c]) gs cap cs else None)"
| "rmatch (Star a # r) adv acc gs cap [] = rmatch r adv acc gs cap []"
| "rmatch (Star a # r) adv acc gs cap (c # cs) =
     (if atom_ok a c
      then (case rmatch (Star a # r) adv (acc @ [c]) gs cap cs of
              Some m \<Rightarrow> Some m
            | None \<Rightarrow> rmatch r adv acc gs cap (c # cs))
      else rmatch r adv acc gs cap (c # cs))"
| "rmatch (Open # r) adv acc gs cap s = rmatch r adv acc (length acc) cap s"
| "rmatch (Close # r) adv acc gs cap s = rmatch r adv acc gs (Some (drop gs acc)) s"
| "rmatch (Eos # r) adv acc gs cap s =
     (if s = [] \<or> s = [10] then rmatch r adv acc gs cap s else None)"

text \<open>
  \<open>search\<close> is the scan of \<open>re.sub\<close> for the next match: the leftmost position where
  the pattern matches, with the text skipped before it. Only the attempt at the
  starting position is subject to \<open>adv\<close>.
\<close>

fun search :: "item list \<Rightarrow> bool \<Rightarrow> str \<Rightarrow> (str \<times> match) option" where
  "search p adv [] =
     (case rmatch p adv [] 0 None [] of Some m \<Rightarrow> Some ([], m) | None \<Rightarrow> None)"
| "search p adv (c # cs) =
     (case rmatch p adv [] 0 None (c # cs) of
        Some m \<Rightarrow> Some ([], m)
      | None \<Rightarrow> map_option (\<lambda>(skipped, m). (c # skipped, m)) (search p False cs))"

lemma rmatch_sound:
  "rmatch r adv acc gs cap s = Some m \<Longrightarrow>
     (\<exists>x. matched m = acc @ x \<and> s = x @ remaining m) \<and> (adv \<longrightarrow> matched m \<noteq> [])"
proof (induction r adv acc gs cap s rule: rmatch.induct)
  case (7 a r adv acc gs cap c cs)
  show ?case
  proof (cases "atom_ok a c")
    case False
    with 7 show ?thesis by simp
  next
    case True
    show ?thesis
    proof (cases "rmatch (Star a # r) adv (acc @ [c]) gs cap cs")
      case None
      with True 7 show ?thesis by simp
    next
      case (Some m')
      with True "7.prems" have "m' = m" by simp
      with Some True "7.IH"(1) show ?thesis by auto
    qed
  qed
qed (auto split: if_splits)

lemma search_sound:
  "search p adv s = Some (skipped, m) \<Longrightarrow>
     s = skipped @ matched m @ remaining m \<and> (adv \<and> skipped = [] \<longrightarrow> matched m \<noteq> [])"
proof (induction p adv s arbitrary: skipped rule: search.induct)
  case (1 p adv)
  then show ?case
    by (auto split: option.splits dest: rmatch_sound)
next
  case (2 p adv c cs)
  show ?case
  proof (cases "rmatch p adv [] 0 None (c # cs)")
    case (Some m')
    with "2.prems" have "skipped = []" "m' = m" by simp_all
    with Some show ?thesis by (auto dest: rmatch_sound)
  next
    case None
    with "2.prems" obtain sk where "search p False cs = Some (sk, m)" "skipped = c # sk"
      by auto
    with "2.IH" None show ?thesis by simp
  qed
qed

text \<open>
  A replacement template is literal text and references to group 1; a group that took
  no part in the match expands to the empty string.
\<close>

datatype ritem = RText str | RGroup1

fun expand :: "ritem list \<Rightarrow> match \<Rightarrow> str" where
  "expand [] m = []"
| "expand (RText t # ts) m = t @ expand ts m"
| "expand (RGroup1 # ts) m = (case group1 m of Some g \<Rightarrow> g | None \<Rightarrow> []) @ expand ts m"

text \<open>
  \<open>subn\<close> is \<open>re.subn\<close> with \<open>count=0\<close>: every non-overlapping match, from the left,
  is replaced by the expanded template, and the replacements are counted. After an
  empty match the next search must advance.
\<close>

function subn :: "item list \<Rightarrow> ritem list \<Rightarrow> bool \<Rightarrow> str \<Rightarrow> str \<times> nat" where
  "subn p t adv s =
     (case search p adv s of
        None \<Rightarrow> (s, 0)
      | Some (skipped, m) \<Rightarrow>
          (case subn p t (matched m = []) (remaining m) of
             (out, n) \<Rightarrow> (skipped @ expand t m @ out, Suc n)))"
  by pat_completeness auto
termination
proof (relation "measure (\<lambda>(p, t, adv, s). 2 * length s + (if adv then 0 else 1))")
  show "wf (measure (\<lambda>(p, t, adv, s). 2 * length s + (if adv then 0 else 1)))"
    by simp
next
  fix p :: "item list" and t :: "ritem list" and adv s x2 skipped m
  assume "search p adv s = Some x2" "(skipped, m) = x2"
  then have "search p adv s = Some (skipped, m)" by simp
  from search_sound [OF this]
  have s: "s = skipped @ matched m @ remaining m"
    and a: "adv \<and> skipped = [] \<longrightarrow> matched m \<noteq> []" by simp_all
  have "length s = length skipped + length (matched m) + length (remaining m)"
    by (subst s) simp
  with a show "((p, t, matched m = [], remaining m), (p, t, adv, s))
      \<in> measure (\<lambda>(p, t, adv, s). 2 * length s + (if adv then 0 else 1))"
    by (cases "matched m"; cases skipped; cases adv) auto
qed

definition sub :: "item list \<Rightarrow> ritem list \<Rightarrow> str \<Rightarrow> str" where
  "sub p t s = fst (subn p t False s)"

declare subn.simps [simp del]

section \<open>The script\<close>

definition files :: "string list" where
  "files =
     [''api/tenants/index.ts'',
      ''api/units/index.ts'',
      ''api/leases/index.ts'',
      ''api/payments/index.ts'',
      ''api/dashboard/stats.ts'']"

definition db_connection_code :: str where
  "db_connection_code = lines
     [''  // Create database connection'',
      ''  const databaseUrl = process.env.DATABASE_URL;'',
      ''  if (!databaseUrl) {'',
      ''    return res.status(500).json({ error: 'Database not configured' });'',
      ''  }'',
      [],
      ''  const sql = postgres(databaseUrl, { '',
      ''    prepare: false,'',
      ''    max: 1,'',
      ''  });'',
      ''  const db = drizzle(sql);'',
      [],
      ''  try {'']"

definition quote :: atom where
  \<comment> \<open>the class of the single and the double quote\<close>
  "quote = OneOf [CHR 0x27, CHR 0x22]"

definition auth_check_pattern :: "item list" where
  "auth_check_pattern =
     Open # chars ''if (!auth) {'' @ Plus Space #
       chars ''return res.status(401).json({ error: '' @ One quote #
       chars ''Unauthorized'' @ One quote # chars '' });'' @ Plus Space #
       chars ''}'' @ Close # [Plus Space]"

definition try_block_template :: "ritem list" where
  "try_block_template = [RGroup1, RText ([10, 10] @ db_connection_code)]"

definition closing_brace_pattern :: "item list" where
  "closing_brace_pattern =
     [Open, One (Chr (CHR 0x0A)), One (Chr CHR ''}''), Close, Star Space, Eos]"

definition closer :: str where
  \<comment> \<open>the newline and closing brace that end a handler\<close>
  "closer = 10 # lit ''}''"

definition finally_block :: str where
  "finally_block =
     10 # lit ''  } finally {'' @ 10 # lit ''    await sql.end();'' @ 10 # lit ''  }''"

definition finally_template :: "ritem list" where
  "finally_template = [RText (finally_block @ closer)]"

definition add_try_block :: "str \<Rightarrow> str" where
  \<comment> \<open>the first \<open>re.sub\<close>: add the try block after the auth check\<close>
  "add_try_block content = sub auth_check_pattern try_block_template content"

definition add_finally_block :: "str \<Rightarrow> str" where
  \<comment> \<open>the second \<open>re.sub\<close>: add the finally block before the closing brace\<close>
  "add_finally_block content = sub closing_brace_pattern finally_template content"

definition patch :: "str \<Rightarrow> str" where
  "patch content = add_finally_block (add_try_block content)"

definition handler_example :: str where
  "handler_example = lines
     [''export default async function handler(req, res) {'',
      ''  const auth = await verify(req);'',
      ''  if (!auth) {'',
      ''    return res.status(401).json({ error: 'Unauthorized' });'',
      ''  }'',
      ''  const data = await fetchData();'',
      ''  return res.json(data);'',
      ''}'']"

section \<open>Files and the console\<close>

text \<open>
  The script touches the world through \<open>open(filepath, 'r')\<close> with \<open>f.read()\<close>,
  \<open>open(filepath, 'w')\<close> with \<open>f.write(content)\<close>, and \<open>print\<close>.

  A path leads, through directories, symbolic links and hard links, to a file, or to
  nothing. Several paths may lead to the same file, so the files are kept in a store
  and a path holds the place of its file there. A file is a regular file, a directory
  or a FIFO. A regular file has its permissions and its data: the text that its bytes
  decode to, or the message of the decoding error when they do not decode.
\<close>

type_synonym path = string
type_synonym inode = nat

datatype entry =
    Absent      \<comment> \<open>no such file, and no directory to create it in\<close>
  | Vacant      \<comment> \<open>no such file, in a directory where it can be created\<close>
  | UnderFile   \<comment> \<open>a component of the path is a regular file\<close>
  | Denied      \<comment> \<open>a directory on the way may not be searched\<close>
  | Link inode  \<comment> \<open>the path leads to this file\<close>

datatype data = Text str | Undecodable string

datatype node =
    Regular data bool bool  \<comment> \<open>the data; may it be read; may it be written\<close>
  | Directory bool          \<comment> \<open>may it be read\<close>
  | Fifo bool bool          \<comment> \<open>may it be read; may it be written; no process is at its
                                other end\<close>

record filesystem =
  entries :: "path \<Rightarrow> entry"
  inodes :: "node list"

datatype exn =
    FileNotFoundError path
  | NotADirectoryError path
  | PermissionError path
  | IsADirectoryError path
  | UnicodeDecodeError string

definition repr :: "path \<Rightarrow> string" where
  \<comment> \<open>\<open>repr\<close> of a path of printable characters with no quote and no backslash, as the
      paths of the script are\<close>
  "repr p = [CHR 0x27] @ p @ [CHR 0x27]"

fun message :: "exn \<Rightarrow> string" where
  \<comment> \<open>\<open>str(e)\<close>\<close>
  "message (FileNotFoundError p) = ''[Errno 2] No such file or directory: '' @ repr p"
| "message (NotADirectoryError p) = ''[Errno 20] Not a directory: '' @ repr p"
| "message (PermissionError p) = ''[Errno 13] Permission denied: '' @ repr p"
| "message (IsADirectoryError p) = ''[Errno 21] Is a directory: '' @ repr p"
| "message (UnicodeDecodeError m) = m"

text \<open>
  A call returns, raises, or never comes back: opening a FIFO that may be opened waits
  for another process to open its other end, and the script runs alone.
\<close>

datatype 'a result = Blocks | Raises exn | Returns 'a

definition resolve :: "filesystem \<Rightarrow> path \<Rightarrow> exn + inode" where
  \<comment> \<open>the file that a path leads to; a link to no file is a dangling symbolic link\<close>
  "resolve f p =
     (case entries f p of
        Absent \<Rightarrow> Inl (FileNotFoundError p)
      | Vacant \<Rightarrow> Inl (FileNotFoundError p)
      | UnderFile \<Rightarrow> Inl (NotADirectoryError p)
      | Denied \<Rightarrow> Inl (PermissionError p)
      | Link i \<Rightarrow> if i < length (inodes f) then Inr i else Inl (FileNotFoundError p))"

fun universal_newlines :: "str \<Rightarrow> str" where
  \<comment> \<open>reading in text mode: a carriage return, with the line feed after it if there is
      one, is read as one line feed\<close>
  "universal_newlines [] = []"
| "universal_newlines [c] = [if c = 13 then 10 else c]"
| "universal_newlines (c # d # cs) =
     (if c = 13 \<and> d = 10 then 10 # universal_newlines cs
      else if c = 13 then 10 # universal_newlines (d # cs)
      else c # universal_newlines (d # cs))"

definition open_read :: "filesystem \<Rightarrow> path \<Rightarrow> str result" where
  \<comment> \<open>\<open>with open(filepath, 'r') as f: content = f.read()\<close>\<close>
  "open_read f p =
     (case resolve f p of
        Inl e \<Rightarrow> Raises e
      | Inr i \<Rightarrow>
          (case inodes f ! i of
             Directory r \<Rightarrow>
               if r then Raises (IsADirectoryError p) else Raises (PermissionError p)
           | Fifo r w \<Rightarrow> if r then Blocks else Raises (PermissionError p)
           | Regular d r w \<Rightarrow>
               if \<not> r then Raises (PermissionError p)
               else (case d of
                       Undecodable m \<Rightarrow> Raises (UnicodeDecodeError m)
                     | Text t \<Rightarrow> Returns (universal_newlines t))))"

definition creatable :: "filesystem \<Rightarrow> path \<Rightarrow> bool" where
  "creatable f p =
     (case entries f p of
        Vacant \<Rightarrow> True
      | Link i \<Rightarrow> length (inodes f) \<le> i
      | _ \<Rightarrow> False)"

definition open_write :: "filesystem \<Rightarrow> path \<Rightarrow> str \<Rightarrow> filesystem result" where
  \<comment> \<open>\<open>with open(filepath, 'w') as f: f.write(content)\<close>, on a POSIX system, where a line
      feed is written as it is. The file that the path leads to gets the text, whatever
      other paths lead to it; a file that is not there is created. The script opens for
      writing only a path that it has just read.\<close>
  "open_write f p content =
     (case resolve f p of
        Inl e \<Rightarrow>
          if creatable f p
          then Returns (f\<lparr>entries := (entries f)(p := Link (length (inodes f))),
                          inodes := inodes f @ [Regular (Text content) True True]\<rparr>)
          else Raises e
      | Inr i \<Rightarrow>
          (case inodes f ! i of
             Directory r \<Rightarrow> Raises (IsADirectoryError p)
           | Fifo r w \<Rightarrow> if w then Blocks else Raises (PermissionError p)
           | Regular d r w \<Rightarrow>
               if w then Returns (f\<lparr>inodes := (inodes f)[i := Regular (Text content) r w]\<rparr>)
               else Raises (PermissionError p)))"

text \<open>
  Each \<open>open\<close> is recorded, so that what the run touched can be stated. The console
  holds the lines printed.
\<close>

datatype event = OpenRead path | OpenWrite path

fun event_path :: "event \<Rightarrow> path" where
  "event_path (OpenRead p) = p"
| "event_path (OpenWrite p) = p"

record world =
  fs :: filesystem
  console :: "string list"
  opened :: "event list"

text \<open>How a statement ends: it is done, it raised, or it never comes back.\<close>

datatype flow = Done | Raised exn | Blocked

text \<open>The body of the \<open>try\<close>: the world it leaves and how it ends.\<close>

definition body :: "path \<Rightarrow> world \<Rightarrow> world \<times> flow" where
  "body filepath w =
     (let w1 = w\<lparr>opened := opened w @ [OpenRead filepath]\<rparr> in
      case open_read (fs w1) filepath of
        Blocks \<Rightarrow> (w1, Blocked)
      | Raises e \<Rightarrow> (w1, Raised e)
      | Returns content \<Rightarrow>
          let content = add_try_block content;
              content = add_finally_block content;
              w2 = w1\<lparr>opened := opened w1 @ [OpenWrite filepath]\<rparr>
          in case open_write (fs w2) filepath content of
               Blocks \<Rightarrow> (w2, Blocked)
             | Raises e \<Rightarrow> (w2, Raised e)
             | Returns fs' \<Rightarrow>
                 (w2\<lparr>fs := fs', console := console w2 @ [''Fixed '' @ filepath]\<rparr>, Done))"

text \<open>
  \<open>try: ... except Exception as e: print(...)\<close>. Every exception of the model is an
  \<open>Exception\<close> (an \<open>OSError\<close> or a \<open>ValueError\<close>) and is caught.
\<close>

definition iteration :: "path \<Rightarrow> world \<Rightarrow> world \<times> flow" where
  "iteration filepath w =
     (case body filepath w of
        (w', Done) \<Rightarrow> (w', Done)
      | (w', Raised e) \<Rightarrow>
          (w'\<lparr>console := console w' @
                 [''Error processing '' @ filepath @ '': '' @ message e]\<rparr>, Done)
      | (w', Blocked) \<Rightarrow> (w', Blocked))"

text \<open>
  The \<open>for\<close> loop: an iteration that raises or never comes back ends the loop.
\<close>

fun for_loop :: "path list \<Rightarrow> world \<Rightarrow> world \<times> flow" where
  "for_loop [] w = (w, Done)"
| "for_loop (filepath # rest) w =
     (case iteration filepath w of
        (w', Done) \<Rightarrow> for_loop rest w'
      | (w', Raised e) \<Rightarrow> (w', Raised e)
      | (w', Blocked) \<Rightarrow> (w', Blocked))"

text \<open>
  The whole script, from a file system and an empty console. The console holds the
  lines that \<open>print\<close> has handed to standard output, which is buffered: \<open>print\<close> itself
  does not raise. The interpreter exits with status 1 when an exception reaches the top
  level, and otherwise flushes standard output: with status 0, or with status 120 when
  the device behind standard output does not take the lines (\<open>stdout_ok\<close> says whether
  it does). A run that never comes back has no exit status.
\<close>

datatype status = Exit nat | Hangs

definition run :: "filesystem \<Rightarrow> bool \<Rightarrow> world \<times> status" where
  "run fs0 stdout_ok =
     (case for_loop files \<lparr>fs = fs0, console = [], opened = []\<rparr> of
        (w, Done) \<Rightarrow> (w, Exit (if stdout_ok then 0 else 120))
      | (w, Raised e) \<Rightarrow> (w, Exit 1)
      | (w, Blocked) \<Rightarrow> (w, Hangs))"

section \<open>Notions used by the properties\<close>

definition contains_auth_check :: "str \<Rightarrow> bool" where
  \<comment> \<open>the auth check pattern is found somewhere in the text\<close>
  "contains_auth_check s \<longleftrightarrow> search auth_check_pattern False s \<noteq> None"

definition ends_with_closer :: "str \<Rightarrow> bool" where
  \<comment> \<open>the text ends with a newline, a closing brace and optional whitespace\<close>
  "ends_with_closer s \<longleftrightarrow>
     (case dropWhile isspace (rev s) of
        a # b # _ \<Rightarrow> a = of_char CHR ''}'' \<and> b = 10
      | _ \<Rightarrow> False)"

definition outcome :: "filesystem \<Rightarrow> path \<Rightarrow> flow" where
  \<comment> \<open>how processing a path ends, on a given file system\<close>
  "outcome fs0 p = snd (body p \<lparr>fs = fs0, console = [], opened = []\<rparr>)"

definition report :: "filesystem \<Rightarrow> path \<Rightarrow> string list" where
  \<comment> \<open>the console lines of a path\<close>
  "report fs0 p =
     (case outcome fs0 p of
        Done \<Rightarrow> [''Fixed '' @ p]
      | Raised e \<Rightarrow> [''Error processing '' @ p @ '': '' @ message e]
      | Blocked \<Rightarrow> [])"

definition node_at :: "filesystem \<Rightarrow> path \<Rightarrow> node option" where
  \<comment> \<open>the file that a path leads to, with its data\<close>
  "node_at f p = (case resolve f p of Inl e \<Rightarrow> None | Inr i \<Rightarrow> Some (inodes f ! i))"

definition events :: "filesystem \<Rightarrow> path \<Rightarrow> event list" where
  \<comment> \<open>the \<open>open\<close> calls of a path: for reading, and for writing when reading has returned\<close>
  "events f p = OpenRead p # (case open_read f p of Returns c \<Rightarrow> [OpenWrite p] | _ \<Rightarrow> [])"

definition fs_of :: "(path \<times> entry) list \<Rightarrow> node list \<Rightarrow> filesystem" where
  \<comment> \<open>the file system with these paths and these files, and nothing else\<close>
  "fs_of es ns =
     \<lparr>entries = (\<lambda>p. case map_of es p of None \<Rightarrow> Absent | Some e \<Rightarrow> e), inodes = ns\<rparr>"

text \<open>
  The run changes the text of files and nothing else: where the paths lead, what kind of
  file each one is and its permissions stay. Two file systems have the same shape when
  they differ at most in the texts; how processing a path ends depends on the shape only.
  These are notions of the proofs: no property below is stated with them.
\<close>

fun strip :: "node \<Rightarrow> node" where
  "strip (Regular (Text t) r w) = Regular (Text []) r w"
| "strip n = n"

definition same_shape :: "filesystem \<Rightarrow> filesystem \<Rightarrow> bool" where
  "same_shape f g \<longleftrightarrow> entries f = entries g \<and> map strip (inodes f) = map strip (inodes g)"

fun node_flow :: "path \<Rightarrow> node \<Rightarrow> flow" where
  \<comment> \<open>how processing a path ends, from the file it leads to\<close>
  "node_flow p (Directory r) =
     (if r then Raised (IsADirectoryError p) else Raised (PermissionError p))"
| "node_flow p (Fifo r w) = (if r then Blocked else Raised (PermissionError p))"
| "node_flow p (Regular (Undecodable m) r w) =
     (if r then Raised (UnicodeDecodeError m) else Raised (PermissionError p))"
| "node_flow p (Regular (Text t) r w) =
     (if r \<and> w then Done else Raised (PermissionError p))"

text \<open>
  The text of an auth check, as the pattern reads it: \<open>w1\<close> and \<open>w2\<close> are the
  whitespace inside it, \<open>q1\<close> and \<open>q2\<close> the quotes around \<open>Unauthorized\<close>.
\<close>

definition guard_text :: "str \<Rightarrow> codepoint \<Rightarrow> codepoint \<Rightarrow> str \<Rightarrow> str" where
  "guard_text w1 q1 q2 w2 =
     lit ''if (!auth) {'' @ w1 @ lit ''return res.status(401).json({ error: '' @
     q1 # lit ''Unauthorized'' @ q2 # lit '' });'' @ w2 @ lit ''}''"

definition spaces1 :: "str \<Rightarrow> bool" where
  "spaces1 w \<longleftrightarrow> w \<noteq> [] \<and> list_all isspace w"

definition is_quote :: "codepoint \<Rightarrow> bool" where
  "is_quote q \<longleftrightarrow> q = 39 \<or> q = 34"

text \<open>The parts of the example handler, and the setup code from its first visible character.\<close>

definition handler_head :: str where
  "handler_head = lines
     [''export default async function handler(req, res) {'',
      ''  const auth = await verify(req);''] @ lit ''  ''"

definition handler_guard :: str where
  "handler_guard = guard_text (10 # lit ''    '') 39 39 (10 # lit ''  '')"

definition handler_body :: str where
  "handler_body = lit ''const data = await fetchData();'' @ 10 # lit ''  return res.json(data);''"


section \<open>What the closing brace pattern matches\<close>

lemma closer_eq: "closer = [10, 125]"
  by (simp add: closer_def lit_def)

lemma isspace_10 [simp]: "isspace 10" by (simp add: isspace_def)
lemma not_isspace_125 [simp]: "\<not> isspace 125" by (simp add: isspace_def)

lemma star_eos_complete:
  "\<forall>x\<in>set s. isspace x \<Longrightarrow> acc \<noteq> [] \<Longrightarrow>
     rmatch [Star Space, Eos] adv acc gs cap s = Some \<lparr>matched = acc @ s, group1 = cap, remaining = []\<rparr>"
  by (induction s arbitrary: acc) simp_all

lemma star_eos_sound:
  "rmatch [Star Space, Eos] adv acc gs cap s = Some m \<Longrightarrow> acc \<noteq> [] \<Longrightarrow>
     (\<forall>x\<in>set s. isspace x) \<and> m = \<lparr>matched = acc @ s, group1 = cap, remaining = []\<rparr>"
proof (induction s arbitrary: acc)
  case Nil
  then show ?case by simp
next
  case (Cons c cs)
  show ?case
  proof (cases "isspace c")
    case False
    then have "c \<noteq> 10" by auto
    with False Cons.prems show ?thesis by simp
  next
    case True
    show ?thesis
    proof (cases "rmatch [Star Space, Eos] adv (acc @ [c]) gs cap cs")
      case (Some m')
      with True Cons.prems have "m' = m" by simp
      with Some Cons.IH [of "acc @ [c]"] True show ?thesis by simp
    next
      case None
      with True Cons.prems have "cs = []" by (simp split: if_splits)
      with None show ?thesis by simp
    qed
  qed
qed

lemma closing_brace_at:
  "rmatch closing_brace_pattern adv [] 0 None u = Some m \<longleftrightarrow>
     (\<exists>w. u = closer @ w \<and> (\<forall>x\<in>set w. isspace x) \<and>
          m = \<lparr>matched = u, group1 = Some closer, remaining = []\<rparr>)"
proof
  assume a: "rmatch closing_brace_pattern adv [] 0 None u = Some m"
  then obtain w where u: "u = 10 # 125 # w"
    by (cases u; cases "tl u") (auto simp: closing_brace_pattern_def split: if_splits)
  with a have "rmatch [Star Space, Eos] adv [10, 125] 0 (Some [10, 125]) w = Some m"
    by (simp add: closing_brace_pattern_def)
  from star_eos_sound [OF this] u show "\<exists>w. u = closer @ w \<and> (\<forall>x\<in>set w. isspace x) \<and>
          m = \<lparr>matched = u, group1 = Some closer, remaining = []\<rparr>"
    by (simp add: closer_eq)
next
  assume "\<exists>w. u = closer @ w \<and> (\<forall>x\<in>set w. isspace x) \<and>
          m = \<lparr>matched = u, group1 = Some closer, remaining = []\<rparr>"
  then obtain w where w: "u = closer @ w" "\<forall>x\<in>set w. isspace x"
     "m = \<lparr>matched = u, group1 = Some closer, remaining = []\<rparr>" by blast
  from star_eos_complete [OF w(2), of "[10, 125]" adv 0 "Some [10, 125]"] w(1,3)
  show "rmatch closing_brace_pattern adv [] 0 None u = Some m"
    by (simp add: closing_brace_pattern_def closer_eq)
qed

lemma search_rmatch:
  "search p adv s = Some (skipped, m) \<Longrightarrow>
     \<exists>a. rmatch p a [] 0 None (matched m @ remaining m) = Some m"
proof (induction p adv s arbitrary: skipped rule: search.induct)
  case (1 p adv)
  then have r: "rmatch p adv [] 0 None [] = Some m" by (auto split: option.splits)
  from rmatch_sound [OF this] have "matched m @ remaining m = []" by auto
  with r show ?case by auto
next
  case (2 p adv c cs)
  show ?case
  proof (cases "rmatch p adv [] 0 None (c # cs)")
    case (Some m')
    with "2.prems" have r: "rmatch p adv [] 0 None (c # cs) = Some m" by simp
    from rmatch_sound [OF this] have "matched m @ remaining m = c # cs" by auto
    with r show ?thesis by auto
  next
    case None
    with "2.prems" obtain sk where "search p False cs = Some (sk, m)" by auto
    with "2.IH" None show ?thesis by simp
  qed
qed

lemma search_closing_sound:
  assumes "search closing_brace_pattern adv s = Some (skipped, m)"
  shows "\<exists>w. s = skipped @ closer @ w \<and> (\<forall>x\<in>set w. isspace x) \<and>
            m = \<lparr>matched = closer @ w, group1 = Some closer, remaining = []\<rparr>"
proof -
  from search_rmatch [OF assms] obtain a where
    "rmatch closing_brace_pattern a [] 0 None (matched m @ remaining m) = Some m" ..
  then obtain w where w: "matched m @ remaining m = closer @ w" "\<forall>x\<in>set w. isspace x"
    "m = \<lparr>matched = matched m @ remaining m, group1 = Some closer, remaining = []\<rparr>"
    unfolding closing_brace_at by blast
  from w(3) have "remaining m = []" by (cases m) simp
  with w search_sound [OF assms] show ?thesis by auto
qed

lemma search_closing_complete:
  assumes "\<forall>x\<in>set tw. isspace x"
  shows "search closing_brace_pattern adv (pre @ closer @ tw) =
           Some (pre, \<lparr>matched = closer @ tw, group1 = Some closer, remaining = []\<rparr>)"
proof (induction pre arbitrary: adv)
  case Nil
  have "rmatch closing_brace_pattern adv [] 0 None (closer @ tw) =
          Some \<lparr>matched = closer @ tw, group1 = Some closer, remaining = []\<rparr>"
    unfolding closing_brace_at using assms by blast
  then show ?case by (simp add: closer_eq)
next
  case (Cons c pre)
  have "rmatch closing_brace_pattern adv [] 0 None (c # pre @ closer @ tw) = None"
  proof (rule ccontr)
    assume "rmatch closing_brace_pattern adv [] 0 None (c # pre @ closer @ tw) \<noteq> None"
    then obtain m where "rmatch closing_brace_pattern adv [] 0 None (c # pre @ closer @ tw) = Some m"
      by auto
    then obtain w where w: "c # pre @ closer @ tw = closer @ w" "\<forall>x\<in>set w. isspace x"
      unfolding closing_brace_at by blast
    then have "pre @ 10 # 125 # tw = 125 # w" by (simp add: closer_eq)
    then have "125 \<in> set w" by (cases pre) auto
    with w(2) show False by auto
  qed
  with Cons.IH [of False] show ?case by simp
qed

lemma subn_closing_nil: "subn closing_brace_pattern t adv [] = ([], 0)"
  by (simp add: subn.simps [of _ _ _ "[]"] closing_brace_pattern_def)

lemma subn_closing_le1: "snd (subn closing_brace_pattern t adv s) \<le> 1"
proof (cases "search closing_brace_pattern adv s")
  case None
  then show ?thesis by (simp add: subn.simps [of _ _ adv s])
next
  case (Some a)
  obtain sk m where a: "a = (sk, m)" by (cases a)
  from search_closing_sound [OF Some [unfolded a]] have "remaining m = []" by auto
  with Some a show ?thesis
    by (simp add: subn.simps [of _ _ adv s] subn_closing_nil)
qed

lemma add_finally_block_closer:
  assumes "\<forall>x\<in>set tw. isspace x"
  shows "subn closing_brace_pattern finally_template False (pre @ closer @ tw)
           = (pre @ finally_block @ closer, 1)"
  by (subst subn.simps)
     (simp add: search_closing_complete [OF assms] subn_closing_nil finally_template_def)

lemma ends_with_closer_iff:
  "ends_with_closer s \<longleftrightarrow> (\<exists>pre tw. s = pre @ closer @ tw \<and> (\<forall>x\<in>set tw. isspace x))"
proof
  assume "ends_with_closer s"
  then obtain r where r: "dropWhile isspace (rev s) = 125 # 10 # r"
    by (auto simp: ends_with_closer_def split: list.splits)
  have "rev s = takeWhile isspace (rev s) @ dropWhile isspace (rev s)" by simp
  with r have "rev s = takeWhile isspace (rev s) @ 125 # 10 # r" by simp
  then have "rev (rev s) = rev (takeWhile isspace (rev s) @ 125 # 10 # r)" by simp
  then have "s = rev r @ closer @ rev (takeWhile isspace (rev s))"
    by (simp add: closer_eq)
  moreover have "\<forall>x\<in>set (rev (takeWhile isspace (rev s))). isspace x"
    by (auto dest: set_takeWhileD)
  ultimately show "\<exists>pre tw. s = pre @ closer @ tw \<and> (\<forall>x\<in>set tw. isspace x)" by blast
next
  assume "\<exists>pre tw. s = pre @ closer @ tw \<and> (\<forall>x\<in>set tw. isspace x)"
  then obtain pre tw where s: "s = pre @ closer @ tw" and tw: "\<forall>x\<in>set tw. isspace x" by blast
  have "rev s = rev tw @ 125 # 10 # rev pre" by (simp add: s closer_eq)
  moreover from tw have "dropWhile isspace (rev tw @ 125 # 10 # rev pre) = 125 # 10 # rev pre"
    using dropWhile_append2 [of "rev tw" isspace "125 # 10 # rev pre"] by simp
  ultimately show "ends_with_closer s" by (simp add: ends_with_closer_def)
qed

lemma add_finally_block_no_closer:
  assumes "\<not> ends_with_closer s"
  shows "subn closing_brace_pattern finally_template False s = (s, 0)"
proof (cases "search closing_brace_pattern False s")
  case None
  then show ?thesis by (simp add: subn.simps [of _ _ False s])
next
  case (Some a)
  obtain sk m where "a = (sk, m)" by (cases a)
  with Some search_closing_sound [of False s sk m] have "ends_with_closer s"
    unfolding ends_with_closer_iff by blast
  with assms show ?thesis by simp
qed

lemma add_try_block_none:
  assumes "\<not> contains_auth_check s"
  shows "subn auth_check_pattern try_block_template False s = (s, 0)"
proof -
  from assms have "search auth_check_pattern False s = None"
    unfolding contains_auth_check_def by blast
  then show ?thesis by (simp add: subn.simps [of _ _ False s])
qed

section \<open>What the auth check pattern matches\<close>

lemma lit_Cons: "lit (c # l) = of_char c # lit l"
  by (simp add: lit_def)

lemma chars_Cons: "chars (c # l) = One (Chr c) # chars l"
  by (simp add: chars_def)

lemma rmatch_chars_sound:
  "rmatch (chars l @ r) adv acc gs cap s = Some m \<Longrightarrow>
     \<exists>s'. s = lit l @ s' \<and> rmatch r adv (acc @ lit l) gs cap s' = Some m"
proof (induction l arbitrary: acc s)
  case Nil
  then show ?case by (simp add: chars_def lit_def)
next
  case (Cons x l)
  then obtain c cs where s: "s = c # cs" and c: "c = of_char x"
    and "rmatch (chars l @ r) adv (acc @ [c]) gs cap cs = Some m"
    by (cases s) (auto simp: chars_Cons split: if_splits)
  from Cons.IH [OF this(3)] s c show ?case by (auto simp: lit_Cons)
qed

lemma rmatch_chars_complete:
  "rmatch r adv (acc @ lit l) gs cap s' = Some m \<Longrightarrow>
     rmatch (chars l @ r) adv acc gs cap (lit l @ s') = Some m"
  by (induction l arbitrary: acc) (simp_all add: chars_def lit_def)

lemma rmatch_chars_mismatch:
  "take (length l) s \<noteq> lit l \<Longrightarrow> rmatch (chars l @ r) adv acc gs cap s = None"
proof (rule ccontr)
  assume a: "take (length l) s \<noteq> lit l" and "rmatch (chars l @ r) adv acc gs cap s \<noteq> None"
  then obtain m where "rmatch (chars l @ r) adv acc gs cap s = Some m" by auto
  from rmatch_chars_sound [OF this] obtain s' where "s = lit l @ s'" by blast
  then have "take (length l) s = lit l" by (simp add: lit_def)
  with a show False by simp
qed

lemma rmatch_star_sound:
  "rmatch (Star a # r) adv acc gs cap s = Some m \<Longrightarrow>
     \<exists>w s'. s = w @ s' \<and> (\<forall>x\<in>set w. atom_ok a x) \<and> rmatch r adv (acc @ w) gs cap s' = Some m"
proof (induction s arbitrary: acc)
  case Nil
  then show ?case by simp
next
  case (Cons c cs)
  show ?case
  proof (cases "atom_ok a c \<and> rmatch (Star a # r) adv (acc @ [c]) gs cap cs \<noteq> None")
    case True
    with Cons.prems have "rmatch (Star a # r) adv (acc @ [c]) gs cap cs = Some m" by auto
    from Cons.IH [OF this] obtain w s' where
      "cs = w @ s'" "\<forall>x\<in>set w. atom_ok a x" "rmatch r adv (acc @ c # w) gs cap s' = Some m"
      by auto
    with True have "c # cs = (c # w) @ s' \<and> (\<forall>x\<in>set (c # w). atom_ok a x) \<and>
        rmatch r adv (acc @ c # w) gs cap s' = Some m" by simp
    then show ?thesis by blast
  next
    case False
    with Cons.prems have "rmatch r adv acc gs cap (c # cs) = Some m"
      by (auto split: if_splits)
    then have "c # cs = [] @ (c # cs) \<and> (\<forall>x\<in>set []. atom_ok a x) \<and>
        rmatch r adv (acc @ []) gs cap (c # cs) = Some m" by simp
    then show ?thesis by blast
  qed
qed

lemma rmatch_star_complete:
  "\<forall>x\<in>set w. atom_ok a x \<Longrightarrow> s' = [] \<or> \<not> atom_ok a (hd s') \<Longrightarrow>
     rmatch r adv (acc @ w) gs cap s' = Some m \<Longrightarrow>
     rmatch (Star a # r) adv acc gs cap (w @ s') = Some m"
proof (induction w arbitrary: acc)
  case Nil
  then show ?case by (cases s') auto
next
  case (Cons x w)
  from Cons.prems have "rmatch (Star a # r) adv (acc @ [x]) gs cap (w @ s') = Some m"
    by (intro Cons.IH) simp_all
  with Cons.prems(1) show ?case by simp
qed

lemma rmatch_plus_sound:
  assumes "rmatch (Plus a # r) adv acc gs cap s = Some m"
  shows "\<exists>w s'. s = w @ s' \<and> w \<noteq> [] \<and> (\<forall>x\<in>set w. atom_ok a x) \<and>
           rmatch r adv (acc @ w) gs cap s' = Some m"
proof -
  from assms obtain c cs where s: "s = c # cs" and c: "atom_ok a c"
    and "rmatch (Star a # r) adv (acc @ [c]) gs cap cs = Some m"
    by (cases s) (auto split: if_splits)
  from rmatch_star_sound [OF this(3)] obtain w s' where
    "cs = w @ s'" "\<forall>x\<in>set w. atom_ok a x" "rmatch r adv (acc @ c # w) gs cap s' = Some m"
    by auto
  with s c have "s = (c # w) @ s' \<and> c # w \<noteq> [] \<and> (\<forall>x\<in>set (c # w). atom_ok a x) \<and>
      rmatch r adv (acc @ c # w) gs cap s' = Some m" by simp
  then show ?thesis by blast
qed

lemma rmatch_plus_complete:
  assumes "w \<noteq> []" "\<forall>x\<in>set w. atom_ok a x" "s' = [] \<or> \<not> atom_ok a (hd s')"
    and "rmatch r adv (acc @ w) gs cap s' = Some m"
  shows "rmatch (Plus a # r) adv acc gs cap (w @ s') = Some m"
proof -
  from assms(1) obtain c w' where w: "w = c # w'" by (cases w) auto
  with assms have "rmatch (Star a # r) adv (acc @ [c]) gs cap (w' @ s') = Some m"
    by (intro rmatch_star_complete) simp_all
  with w assms(2) show ?thesis by simp
qed

lemma rmatch_star_end:
  "acc \<noteq> [] \<Longrightarrow> rmatch [Star a] adv acc gs cap s =
     Some \<lparr>matched = acc @ takeWhile (atom_ok a) s, group1 = cap,
           remaining = dropWhile (atom_ok a) s\<rparr>"
  by (induction s arbitrary: acc) simp_all

lemma rmatch_plus_end:
  "rmatch [Plus a] adv acc gs cap s = Some m \<longleftrightarrow>
     (\<exists>w s'. s = w @ s' \<and> w \<noteq> [] \<and> (\<forall>x\<in>set w. atom_ok a x) \<and>
        (s' = [] \<or> \<not> atom_ok a (hd s')) \<and>
        m = \<lparr>matched = acc @ w, group1 = cap, remaining = s'\<rparr>)"
proof
  assume a: "rmatch [Plus a] adv acc gs cap s = Some m"
  then obtain c cs where s: "s = c # cs" and c: "atom_ok a c"
    and "rmatch [Star a] adv (acc @ [c]) gs cap cs = Some m"
    by (cases s) (auto split: if_splits)
  then have m: "m = \<lparr>matched = acc @ c # takeWhile (atom_ok a) cs, group1 = cap,
           remaining = dropWhile (atom_ok a) cs\<rparr>"
    by (simp add: rmatch_star_end)
  have "dropWhile (atom_ok a) cs = [] \<or> \<not> atom_ok a (hd (dropWhile (atom_ok a) cs))"
    using hd_dropWhile [of "atom_ok a" cs] by blast
  with s c m have "s = (c # takeWhile (atom_ok a) cs) @ dropWhile (atom_ok a) cs \<and>
      c # takeWhile (atom_ok a) cs \<noteq> [] \<and>
      (\<forall>x\<in>set (c # takeWhile (atom_ok a) cs). atom_ok a x) \<and>
      (dropWhile (atom_ok a) cs = [] \<or> \<not> atom_ok a (hd (dropWhile (atom_ok a) cs))) \<and>
      m = \<lparr>matched = acc @ c # takeWhile (atom_ok a) cs, group1 = cap,
            remaining = dropWhile (atom_ok a) cs\<rparr>"
    by (auto dest: set_takeWhileD)
  then show "\<exists>w s'. s = w @ s' \<and> w \<noteq> [] \<and> (\<forall>x\<in>set w. atom_ok a x) \<and>
        (s' = [] \<or> \<not> atom_ok a (hd s')) \<and>
        m = \<lparr>matched = acc @ w, group1 = cap, remaining = s'\<rparr>" by blast
next
  assume "\<exists>w s'. s = w @ s' \<and> w \<noteq> [] \<and> (\<forall>x\<in>set w. atom_ok a x) \<and>
        (s' = [] \<or> \<not> atom_ok a (hd s')) \<and>
        m = \<lparr>matched = acc @ w, group1 = cap, remaining = s'\<rparr>"
  then obtain w s' where w: "s = w @ s'" "w \<noteq> []" "\<forall>x\<in>set w. atom_ok a x"
    "s' = [] \<or> \<not> atom_ok a (hd s')" "m = \<lparr>matched = acc @ w, group1 = cap, remaining = s'\<rparr>"
    by blast
  from w(2,5) have "rmatch [] adv (acc @ w) gs cap s' = Some m" by simp
  from rmatch_plus_complete [OF w(2,3,4) this] w(1) show "rmatch [Plus a] adv acc gs cap s = Some m"
    by simp
qed

lemma rmatch_one_sound:
  "rmatch (One a # r) adv acc gs cap s = Some m \<Longrightarrow>
     \<exists>c s'. s = c # s' \<and> atom_ok a c \<and> rmatch r adv (acc @ [c]) gs cap s' = Some m"
  by (cases s) (auto split: if_splits)

lemma atom_ok_quote: "atom_ok quote c \<longleftrightarrow> is_quote c"
  by (auto simp: quote_def is_quote_def)

lemma auth_check_sound:
  assumes "rmatch auth_check_pattern adv [] 0 None u = Some m"
  shows "\<exists>w1 q1 q2 w2 w3.
           spaces1 w1 \<and> is_quote q1 \<and> is_quote q2 \<and> spaces1 w2 \<and> spaces1 w3 \<and>
           u = guard_text w1 q1 q2 w2 @ w3 @ remaining m \<and>
           (remaining m = [] \<or> \<not> isspace (hd (remaining m))) \<and>
           matched m = guard_text w1 q1 q2 w2 @ w3 \<and>
           group1 m = Some (guard_text w1 q1 q2 w2)"
proof -
  let ?T1 = "chars ''}'' @ Close # [Plus Space]"
  let ?T2 = "chars '' });'' @ Plus Space # ?T1"
  let ?T3 = "chars ''Unauthorized'' @ One quote # ?T2"
  let ?T4 = "chars ''return res.status(401).json({ error: '' @ One quote # ?T3"
  let ?L1 = "lit ''if (!auth) {''"
  let ?L2 = "lit ''return res.status(401).json({ error: ''"
  let ?L3 = "lit ''Unauthorized''"
  let ?L4 = "lit '' });''"
  let ?L5 = "lit ''}''"
  from assms have "rmatch (chars ''if (!auth) {'' @ Plus Space # ?T4) adv [] 0 None u = Some m"
    by (simp add: auth_check_pattern_def)
  from rmatch_chars_sound [OF this] obtain s1 where u: "u = ?L1 @ s1"
    and "rmatch (Plus Space # ?T4) adv ?L1 0 None s1 = Some m" by auto
  from rmatch_plus_sound [OF this(2)] obtain w1 s2 where s1: "s1 = w1 @ s2"
    and w1: "w1 \<noteq> []" "\<forall>x\<in>set w1. atom_ok Space x"
    and "rmatch ?T4 adv (?L1 @ w1) 0 None s2 = Some m" by auto
  from rmatch_chars_sound [OF this(4)] obtain s3 where s2: "s2 = ?L2 @ s3"
    and "rmatch (One quote # ?T3) adv (?L1 @ w1 @ ?L2) 0 None s3 = Some m" by auto
  from rmatch_one_sound [OF this(2)] obtain q1 s4 where s3: "s3 = q1 # s4"
    and q1: "atom_ok quote q1"
    and "rmatch ?T3 adv (?L1 @ w1 @ ?L2 @ [q1]) 0 None s4 = Some m" by auto
  from rmatch_chars_sound [OF this(3)] obtain s5 where s4: "s4 = ?L3 @ s5"
    and "rmatch (One quote # ?T2) adv (?L1 @ w1 @ ?L2 @ q1 # ?L3) 0 None s5 = Some m" by auto
  from rmatch_one_sound [OF this(2)] obtain q2 s6 where s5: "s5 = q2 # s6"
    and q2: "atom_ok quote q2"
    and "rmatch ?T2 adv (?L1 @ w1 @ ?L2 @ q1 # ?L3 @ [q2]) 0 None s6 = Some m" by auto
  from rmatch_chars_sound [OF this(3)] obtain s7 where s6: "s6 = ?L4 @ s7"
    and "rmatch (Plus Space # ?T1) adv (?L1 @ w1 @ ?L2 @ q1 # ?L3 @ q2 # ?L4) 0 None s7 = Some m"
    by auto
  from rmatch_plus_sound [OF this(2)] obtain w2 s8 where s7: "s7 = w2 @ s8"
    and w2: "w2 \<noteq> []" "\<forall>x\<in>set w2. atom_ok Space x"
    and "rmatch ?T1 adv (?L1 @ w1 @ ?L2 @ q1 # ?L3 @ q2 # ?L4 @ w2) 0 None s8 = Some m" by auto
  from rmatch_chars_sound [OF this(4)] obtain s9 where s8: "s8 = ?L5 @ s9"
    and "rmatch (Close # [Plus Space]) adv (guard_text w1 q1 q2 w2) 0 None s9 = Some m"
    by (auto simp: guard_text_def)
  then have "rmatch [Plus Space] adv (guard_text w1 q1 q2 w2) 0
      (Some (guard_text w1 q1 q2 w2)) s9 = Some m" by simp
  then obtain w3 s' where s9: "s9 = w3 @ s'" and w3: "w3 \<noteq> []" "\<forall>x\<in>set w3. atom_ok Space x"
    and s': "s' = [] \<or> \<not> atom_ok Space (hd s')"
    and m: "m = \<lparr>matched = guard_text w1 q1 q2 w2 @ w3,
                 group1 = Some (guard_text w1 q1 q2 w2), remaining = s'\<rparr>"
    unfolding rmatch_plus_end by blast
  have "u = guard_text w1 q1 q2 w2 @ w3 @ s'"
    by (simp add: u s1 s2 s3 s4 s5 s6 s7 s8 s9 guard_text_def)
  with w1 w2 w3 q1 q2 s' m
  have "spaces1 w1 \<and> is_quote q1 \<and> is_quote q2 \<and> spaces1 w2 \<and> spaces1 w3 \<and>
           u = guard_text w1 q1 q2 w2 @ w3 @ remaining m \<and>
           (remaining m = [] \<or> \<not> isspace (hd (remaining m))) \<and>
           matched m = guard_text w1 q1 q2 w2 @ w3 \<and>
           group1 m = Some (guard_text w1 q1 q2 w2)"
    by (simp add: spaces1_def list_all_iff atom_ok_quote)
  then show ?thesis by blast
qed

lemma not_isspace_lit_hd:
  "\<not> isspace (hd (lit ''return res.status(401).json({ error: '' @ s))"
  "\<not> isspace (hd (lit ''}'' @ s))"
  by (simp_all add: lit_def isspace_def)

lemma auth_check_complete:
  assumes "spaces1 w1" "is_quote q1" "is_quote q2" "spaces1 w2" "spaces1 w3"
    and "rest = [] \<or> \<not> isspace (hd rest)"
  shows "rmatch auth_check_pattern adv [] 0 None (guard_text w1 q1 q2 w2 @ w3 @ rest) =
           Some \<lparr>matched = guard_text w1 q1 q2 w2 @ w3,
                 group1 = Some (guard_text w1 q1 q2 w2), remaining = rest\<rparr>"
    (is "_ = Some ?m")
proof -
  let ?T1 = "chars ''}'' @ Close # [Plus Space]"
  let ?T2 = "chars '' });'' @ Plus Space # ?T1"
  let ?T3 = "chars ''Unauthorized'' @ One quote # ?T2"
  let ?T4 = "chars ''return res.status(401).json({ error: '' @ One quote # ?T3"
  let ?L1 = "lit ''if (!auth) {''"
  let ?L2 = "lit ''return res.status(401).json({ error: ''"
  let ?L3 = "lit ''Unauthorized''"
  let ?L4 = "lit '' });''"
  let ?L5 = "lit ''}''"
  let ?G = "guard_text w1 q1 q2 w2"
  from assms have sp: "w1 \<noteq> []" "\<forall>x\<in>set w1. atom_ok Space x"
    "w2 \<noteq> []" "\<forall>x\<in>set w2. atom_ok Space x" "w3 \<noteq> []" "\<forall>x\<in>set w3. atom_ok Space x"
    "rest = [] \<or> \<not> atom_ok Space (hd rest)"
    by (simp_all add: spaces1_def list_all_iff)
  from sp(5,6,7) have "rmatch [Plus Space] adv ?G 0 (Some ?G) (w3 @ rest) = Some ?m"
    unfolding rmatch_plus_end by blast
  then have "rmatch (Close # [Plus Space]) adv
      ((?L1 @ w1 @ ?L2 @ q1 # ?L3 @ q2 # ?L4 @ w2) @ ?L5) 0 None (w3 @ rest) = Some ?m"
    by (simp add: guard_text_def)
  from rmatch_chars_complete [OF this]
  have "rmatch ?T1 adv ((?L1 @ w1 @ ?L2 @ q1 # ?L3 @ q2 # ?L4) @ w2) 0 None
      (?L5 @ w3 @ rest) = Some ?m" by simp
  from rmatch_plus_complete [OF sp(3,4) _ this]
  have "rmatch (Plus Space # ?T1) adv ((?L1 @ w1 @ ?L2 @ q1 # ?L3 @ [q2]) @ ?L4) 0 None
      (w2 @ ?L5 @ w3 @ rest) = Some ?m" by (simp add: not_isspace_lit_hd)
  from rmatch_chars_complete [OF this] assms(3)
  have "rmatch (One quote # ?T2) adv ((?L1 @ w1 @ ?L2 @ [q1]) @ ?L3) 0 None
      (q2 # ?L4 @ w2 @ ?L5 @ w3 @ rest) = Some ?m" by (simp add: atom_ok_quote)
  from rmatch_chars_complete [OF this] assms(2)
  have "rmatch (One quote # ?T3) adv ((?L1 @ w1) @ ?L2) 0 None
      (q1 # ?L3 @ q2 # ?L4 @ w2 @ ?L5 @ w3 @ rest) = Some ?m" by (simp add: atom_ok_quote)
  from rmatch_chars_complete [OF this]
  have "rmatch ?T4 adv (?L1 @ w1) 0 None
      (?L2 @ q1 # ?L3 @ q2 # ?L4 @ w2 @ ?L5 @ w3 @ rest) = Some ?m" by simp
  from rmatch_plus_complete [OF sp(1,2) _ this]
  have "rmatch (Plus Space # ?T4) adv ([] @ ?L1) 0 None
      (w1 @ ?L2 @ q1 # ?L3 @ q2 # ?L4 @ w2 @ ?L5 @ w3 @ rest) = Some ?m"
    by (simp add: not_isspace_lit_hd)
  from rmatch_chars_complete [OF this]
  show ?thesis by (simp add: auth_check_pattern_def guard_text_def)
qed

lemma auth_check_mismatch:
  assumes "take 12 u \<noteq> lit ''if (!auth) {''"
  shows "rmatch auth_check_pattern adv [] 0 None u = None"
proof -
  have "length ''if (!auth) {'' = 12" by simp
  with assms have "take (length ''if (!auth) {'') u \<noteq> lit ''if (!auth) {''" by metis
  from rmatch_chars_mismatch [OF this] show ?thesis
    by (simp add: auth_check_pattern_def)
qed

section \<open>One match of the auth check\<close>

lemma subn_some:
  "search p adv s = Some (skipped, m) \<Longrightarrow>
     subn p t adv s =
       (skipped @ expand t m @ fst (subn p t (matched m = []) (remaining m)),
        Suc (snd (subn p t (matched m = []) (remaining m))))"
  by (subst subn.simps) (simp split: prod.splits)

lemma subn_none: "search p adv s = None \<Longrightarrow> subn p t adv s = (s, 0)"
  by (subst subn.simps) simp

lemma guard_text_not_Nil [simp]: "guard_text w1 q1 q2 w2 \<noteq> []"
  by (simp add: guard_text_def lit_def)

lemma four_in_guard_text: "52 \<in> set (guard_text w1 q1 q2 w2)"
  by (simp add: guard_text_def lit_def)

lemma search_auth_sound:
  assumes "search auth_check_pattern adv s = Some (skipped, m)"
  shows "\<exists>w1 q1 q2 w2 w3.
           spaces1 w1 \<and> is_quote q1 \<and> is_quote q2 \<and> spaces1 w2 \<and> spaces1 w3 \<and>
           s = skipped @ guard_text w1 q1 q2 w2 @ w3 @ remaining m \<and>
           (remaining m = [] \<or> \<not> isspace (hd (remaining m))) \<and>
           matched m = guard_text w1 q1 q2 w2 @ w3 \<and>
           group1 m = Some (guard_text w1 q1 q2 w2)"
proof -
  from search_rmatch [OF assms] obtain a where
    "rmatch auth_check_pattern a [] 0 None (matched m @ remaining m) = Some m" ..
  from auth_check_sound [OF this] obtain w1 q1 q2 w2 w3 where
    *: "spaces1 w1" "is_quote q1" "is_quote q2" "spaces1 w2" "spaces1 w3"
    "remaining m = [] \<or> \<not> isspace (hd (remaining m))"
    "matched m = guard_text w1 q1 q2 w2 @ w3"
    "group1 m = Some (guard_text w1 q1 q2 w2)" by blast
  from search_sound [OF assms] * have "s = skipped @ guard_text w1 q1 q2 w2 @ w3 @ remaining m"
    by simp
  with * show ?thesis by blast
qed

lemma contains_auth_check_four:
  assumes "contains_auth_check s"
  shows "52 \<in> set s"
proof -
  from assms obtain skipped m where "search auth_check_pattern False s = Some (skipped, m)"
    by (auto simp: contains_auth_check_def)
  from search_auth_sound [OF this] obtain w1 q1 q2 w2 x where
    "s = skipped @ guard_text w1 q1 q2 w2 @ x" by blast
  then show ?thesis using four_in_guard_text [of w1 q1 q2 w2] by simp
qed

lemma no_four_no_match: "52 \<notin> set s \<Longrightarrow> search auth_check_pattern False s = None"
  using contains_auth_check_four [of s] unfolding contains_auth_check_def by blast

lemma patch_one_match:
  assumes first: "search auth_check_pattern False content = Some (pre, m)"
    and only: "search auth_check_pattern False (remaining m) = None"
    and rest: "remaining m = mid @ closer @ tw" and tw: "list_all isspace tw"
  shows "\<exists>guard ws. group1 m = Some guard \<and> matched m = guard @ ws \<and> spaces1 ws \<and>
           (\<exists>w1 q1 q2 w2. guard = guard_text w1 q1 q2 w2 \<and>
              spaces1 w1 \<and> is_quote q1 \<and> is_quote q2 \<and> spaces1 w2) \<and>
           content = pre @ guard @ ws @ mid @ closer @ tw \<and>
           subn auth_check_pattern try_block_template False content =
             (pre @ guard @ [10, 10] @ db_connection_code @ mid @ closer @ tw, 1) \<and>
           subn closing_brace_pattern finally_template False (add_try_block content) =
             (pre @ guard @ [10, 10] @ db_connection_code @ mid @ finally_block @ closer, 1) \<and>
           patch content =
             pre @ guard @ [10, 10] @ db_connection_code @ mid @ finally_block @ closer"
proof -
  from search_auth_sound [OF first] obtain w1 q1 q2 w2 ws where
    sh: "spaces1 w1" "is_quote q1" "is_quote q2" "spaces1 w2"
    and ws: "spaces1 ws" and c: "content = pre @ guard_text w1 q1 q2 w2 @ ws @ remaining m"
    and mm: "matched m = guard_text w1 q1 q2 w2 @ ws"
    and g: "group1 m = Some (guard_text w1 q1 q2 w2)" by blast
  let ?g = "guard_text w1 q1 q2 w2"
  from mm have ne: "matched m \<noteq> []" by simp
  have a: "subn auth_check_pattern try_block_template False content =
      (pre @ ?g @ [10, 10] @ db_connection_code @ mid @ closer @ tw, 1)"
    using subn_some [OF first, of try_block_template] subn_none [OF only, of try_block_template]
    by (simp add: ne g rest try_block_template_def)
  from tw have "\<forall>x\<in>set tw. isspace x" by (simp add: list_all_iff)
  from add_finally_block_closer [OF this, of "pre @ ?g @ [10, 10] @ db_connection_code @ mid"]
  have b: "subn closing_brace_pattern finally_template False
      (pre @ ?g @ [10, 10] @ db_connection_code @ mid @ closer @ tw) =
      (pre @ ?g @ [10, 10] @ db_connection_code @ mid @ finally_block @ closer, 1)" by simp
  from a have t: "add_try_block content =
      pre @ ?g @ [10, 10] @ db_connection_code @ mid @ closer @ tw"
    by (simp add: add_try_block_def sub_def)
  from b t have "patch content =
      pre @ ?g @ [10, 10] @ db_connection_code @ mid @ finally_block @ closer"
    by (simp add: patch_def add_finally_block_def sub_def)
  with a b t c rest mm g ws sh show ?thesis by auto
qed

section \<open>The example handler\<close>

lemma handler_example_parts:
  "handler_example = handler_head @ handler_guard @ (10 # lit ''  '') @ handler_body @ closer @ [10]"
  by (simp add: handler_example_def handler_head_def handler_guard_def handler_body_def
      guard_text_def closer_def lines_def lit_def)

lemma search_here:
  "rmatch p adv [] 0 None s = Some m \<Longrightarrow> search p adv s = Some ([], m)"
  by (cases s) simp_all

lemma search_auth_skip:
  "c \<noteq> 105 \<Longrightarrow> search auth_check_pattern adv (c # cs) =
     map_option (\<lambda>(sk, m). (c # sk, m)) (search auth_check_pattern False cs)"
  "c \<noteq> 102 \<Longrightarrow> search auth_check_pattern adv (105 # c # cs) =
     map_option (\<lambda>(sk, m). (105 # sk, m)) (search auth_check_pattern False (c # cs))"
  "c \<noteq> 32 \<Longrightarrow> search auth_check_pattern adv (105 # 102 # c # cs) =
     map_option (\<lambda>(sk, m). (105 # sk, m)) (search auth_check_pattern False (102 # c # cs))"
  by (simp_all add: auth_check_mismatch lit_def)

lemma search_handler_head:
  "search auth_check_pattern False (handler_head @ s) =
     map_option (\<lambda>(sk, m). (handler_head @ sk, m)) (search auth_check_pattern False s)"
proof (cases "search auth_check_pattern False s")
  case None
  then show ?thesis
    by (simp add: handler_head_def lines_def lit_def search_auth_skip del: search.simps)
next
  case (Some a)
  obtain sk m where "a = (sk, m)" by (cases a)
  with Some show ?thesis
    by (simp add: handler_head_def lines_def lit_def search_auth_skip del: search.simps)
qed

lemma search_handler_guard:
  assumes "spaces1 ws" "rest = [] \<or> \<not> isspace (hd rest)"
  shows "search auth_check_pattern False (handler_head @ handler_guard @ ws @ rest) =
           Some (handler_head,
             \<lparr>matched = handler_guard @ ws, group1 = Some handler_guard, remaining = rest\<rparr>)"
proof -
  have "spaces1 (10 # lit ''    '')" "spaces1 (10 # lit ''  '')" "is_quote 39"
    by (simp_all add: spaces1_def is_quote_def lit_def isspace_def)
  from auth_check_complete [OF this(1) this(3) this(3) this(2) assms]
  have "search auth_check_pattern False (handler_guard @ ws @ rest) =
      Some ([], \<lparr>matched = handler_guard @ ws, group1 = Some handler_guard, remaining = rest\<rparr>)"
    unfolding handler_guard_def by (rule search_here)
  then show ?thesis by (simp add: search_handler_head)
qed

lemma four_lit: "52 \<in> set (lit l) \<longleftrightarrow> CHR ''4'' \<in> set l"
proof -
  have "(52::nat) = of_char CHR ''4''" by simp
  then show ?thesis unfolding lit_def by (auto simp del: of_char_Char)
qed

lemma no_four:
  "52 \<notin> set handler_body" "52 \<notin> set closer" "52 \<notin> set finally_block"
  "52 \<notin> set db_connection_code"
  by (simp_all add: handler_body_def closer_def finally_block_def db_connection_code_def
      lines_def four_lit)



lemma handler_body_hd: "\<not> isspace (hd (handler_body @ s))"
proof -
  have "handler_body = 99 # tl handler_body" by (simp add: handler_body_def lit_def)
  then have "hd (handler_body @ s) = 99" by (metis append_Cons list.sel(1))
  then show ?thesis by (simp add: isspace_def)
qed

lemma patch_handler_example:
  "search auth_check_pattern False handler_example =
     Some (handler_head, \<lparr>matched = handler_guard @ [10, 32, 32], group1 = Some handler_guard,
                          remaining = handler_body @ closer @ [10]\<rparr>)"
  "search auth_check_pattern False (handler_body @ closer @ [10]) = None"
  "patch handler_example =
     handler_head @ handler_guard @ [10, 10] @ db_connection_code @ handler_body @
     finally_block @ closer"
proof -
  have sp: "spaces1 [10, 32, 32]" by (simp add: spaces1_def isspace_def)
  from search_handler_guard [OF sp, of "handler_body @ closer @ [10]"] handler_body_hd
  show 1: "search auth_check_pattern False handler_example =
     Some (handler_head, \<lparr>matched = handler_guard @ [10, 32, 32], group1 = Some handler_guard,
                          remaining = handler_body @ closer @ [10]\<rparr>)"
    by (simp add: handler_example_parts lit_def)
  show 2: "search auth_check_pattern False (handler_body @ closer @ [10]) = None"
    by (rule no_four_no_match) (simp add: no_four)
  have "list_all isspace [10]" by simp
  from patch_one_match [OF 1 _ _ this, of handler_body] 2
  show "patch handler_example =
     handler_head @ handler_guard @ [10, 10] @ db_connection_code @ handler_body @
     finally_block @ closer" by auto
qed


section \<open>What containing the auth check means\<close>

lemma search_finds:
  "rmatch p False [] 0 None s = Some m \<Longrightarrow> search p False (pre @ s) \<noteq> None"
proof (induction pre)
  case Nil
  then show ?case by (simp add: search_here)
next
  case (Cons c pre)
  then show ?case
    by (cases "rmatch p False [] 0 None (c # pre @ s)") simp_all
qed

lemma contains_auth_check_iff:
  "contains_auth_check s \<longleftrightarrow>
     (\<exists>pre w1 q1 q2 w2 ws rest.
        s = pre @ guard_text w1 q1 q2 w2 @ ws @ rest \<and>
        spaces1 w1 \<and> is_quote q1 \<and> is_quote q2 \<and> spaces1 w2 \<and> spaces1 ws)"
proof
  assume "contains_auth_check s"
  then obtain skipped m where "search auth_check_pattern False s = Some (skipped, m)"
    by (auto simp: contains_auth_check_def)
  from search_auth_sound [OF this]
  show "\<exists>pre w1 q1 q2 w2 ws rest.
        s = pre @ guard_text w1 q1 q2 w2 @ ws @ rest \<and>
        spaces1 w1 \<and> is_quote q1 \<and> is_quote q2 \<and> spaces1 w2 \<and> spaces1 ws" by blast
next
  assume "\<exists>pre w1 q1 q2 w2 ws rest.
        s = pre @ guard_text w1 q1 q2 w2 @ ws @ rest \<and>
        spaces1 w1 \<and> is_quote q1 \<and> is_quote q2 \<and> spaces1 w2 \<and> spaces1 ws"
  then obtain pre w1 q1 q2 w2 ws rest where
    s: "s = pre @ guard_text w1 q1 q2 w2 @ ws @ rest"
    and sh: "spaces1 w1" "is_quote q1" "is_quote q2" "spaces1 w2" and ws: "spaces1 ws" by blast
  let ?ws = "ws @ takeWhile isspace rest"
  let ?rest = "dropWhile isspace rest"
  from ws have 1: "spaces1 ?ws"
    by (auto simp: spaces1_def list_all_iff dest: set_takeWhileD)
  have 2: "?rest = [] \<or> \<not> isspace (hd ?rest)"
    using hd_dropWhile [of isspace rest] by blast
  from auth_check_complete [OF sh 1 2, of False]
  have "search auth_check_pattern False (pre @ guard_text w1 q1 q2 w2 @ ?ws @ ?rest) \<noteq> None"
    by (rule search_finds)
  then show "contains_auth_check s" by (simp add: contains_auth_check_def s)
qed

lemma not_ends_with_closer_identity:
  assumes "\<not> contains_auth_check content" "\<not> ends_with_closer content"
  shows "patch content = content"
  using add_try_block_none [OF assms(1)] add_finally_block_no_closer [OF assms(2)]
  by (simp add: patch_def add_try_block_def add_finally_block_def sub_def)

section \<open>The loop over the files\<close>

text \<open>
  What one iteration does, case by case; what the loop keeps; and what the run leaves on
  the console, in the record of the \<open>open\<close> calls and in the files.
\<close>

lemma patch_eq: "add_finally_block (add_try_block content) = patch content"
  by (simp add: patch_def)

lemma same_shape_refl [simp]: "same_shape f f"
  by (simp add: same_shape_def)

lemma same_shape_trans: "same_shape f g \<Longrightarrow> same_shape g h \<Longrightarrow> same_shape f h"
  by (simp add: same_shape_def)

lemma same_shape_length: "same_shape f g \<Longrightarrow> length (inodes f) = length (inodes g)"
  unfolding same_shape_def by (metis length_map)

lemma same_shape_resolve: "same_shape f g \<Longrightarrow> resolve f p = resolve g p"
  using same_shape_length [of f g]
  by (simp add: resolve_def same_shape_def split: entry.splits)

lemma same_shape_strip:
  assumes "same_shape f g" "i < length (inodes g)"
  shows "strip (inodes f ! i) = strip (inodes g ! i)"
proof -
  from assms have "i < length (inodes f)" by (simp add: same_shape_length)
  then have "strip (inodes f ! i) = map strip (inodes f) ! i" by simp
  also from assms have "\<dots> = map strip (inodes g) ! i" by (simp add: same_shape_def)
  also from assms(2) have "\<dots> = strip (inodes g ! i)" by simp
  finally show ?thesis .
qed

lemma node_flow_strip: "node_flow p (strip n) = node_flow p n"
  by (cases "(p, n)" rule: node_flow.cases) simp_all

lemma resolve_bound: "resolve f p = Inr i \<Longrightarrow> i < length (inodes f)"
  by (auto simp: resolve_def split: entry.splits if_splits)

lemma open_read_blocks:
  "open_read f p = Blocks \<longleftrightarrow> (\<exists>i w. resolve f p = Inr i \<and> inodes f ! i = Fifo True w)"
  by (auto simp: open_read_def split: sum.splits node.splits data.splits)

lemma open_read_returns:
  "open_read f p = Returns c \<longleftrightarrow>
     (\<exists>i t w. resolve f p = Inr i \<and> inodes f ! i = Regular (Text t) True w \<and>
        c = universal_newlines t)"
  by (auto simp: open_read_def split: sum.splits node.splits data.splits)

lemma outcome_eq:
  "outcome f p =
     (case open_read f p of
        Blocks \<Rightarrow> Blocked
      | Raises e \<Rightarrow> Raised e
      | Returns content \<Rightarrow>
          (case open_write f p (patch content) of
             Blocks \<Rightarrow> Blocked | Raises e \<Rightarrow> Raised e | Returns f' \<Rightarrow> Done))"
  by (simp add: outcome_def body_def Let_def patch_eq split: result.splits)

lemma outcome_node:
  "outcome f p = (case resolve f p of Inl e \<Rightarrow> Raised e | Inr i \<Rightarrow> node_flow p (inodes f ! i))"
proof (cases "resolve f p")
  case (Inl e)
  then show ?thesis by (simp add: outcome_eq open_read_def)
next
  case (Inr i)
  then show ?thesis
    by (cases "(p, inodes f ! i)" rule: node_flow.cases)
       (simp_all add: outcome_eq open_read_def open_write_def)
qed

lemma same_shape_outcome:
  assumes "same_shape f g"
  shows "outcome f p = outcome g p"
proof (cases "resolve g p")
  case (Inl e)
  with same_shape_resolve [OF assms, of p] show ?thesis by (simp add: outcome_node)
next
  case (Inr i)
  from same_shape_strip [OF assms resolve_bound [OF Inr]]
  have "node_flow p (inodes f ! i) = node_flow p (inodes g ! i)"
    by (metis node_flow_strip)
  with Inr same_shape_resolve [OF assms, of p] show ?thesis by (simp add: outcome_node)
qed

lemma same_shape_report: "same_shape f g \<Longrightarrow> report f p = report g p"
  by (simp add: report_def same_shape_outcome [of f g])

lemma outcome_blocked: "outcome f p = Blocked \<longleftrightarrow> open_read f p = Blocks"
proof (cases "resolve f p")
  case (Inl e)
  then show ?thesis by (simp add: outcome_node open_read_blocks)
next
  case (Inr i)
  then show ?thesis
    by (cases "(p, inodes f ! i)" rule: node_flow.cases)
       (simp_all add: outcome_node open_read_blocks)
qed

lemma same_shape_blocks:
  "same_shape f g \<Longrightarrow> open_read f p = Blocks \<longleftrightarrow> open_read g p = Blocks"
  using same_shape_outcome [of f g p] by (simp add: outcome_blocked [symmetric])

lemma iteration_blocks:
  "open_read (fs w) p = Blocks \<Longrightarrow>
     iteration p w = (w\<lparr>opened := opened w @ [OpenRead p]\<rparr>, Blocked)"
  by (simp add: iteration_def body_def Let_def)

lemma iteration_read_fails:
  "open_read (fs w) p = Raises e \<Longrightarrow>
     iteration p w =
       (w\<lparr>opened := opened w @ [OpenRead p],
           console := console w @ [''Error processing '' @ p @ '': '' @ message e]\<rparr>, Done)"
  by (simp add: iteration_def body_def Let_def)

lemma iteration_write_fails:
  assumes "resolve (fs w) p = Inr i" "inodes (fs w) ! i = Regular (Text t) True False"
  shows "iteration p w =
       (w\<lparr>opened := opened w @ [OpenRead p, OpenWrite p],
           console := console w @
             [''Error processing '' @ p @ '': '' @ message (PermissionError p)]\<rparr>, Done)"
  using assms by (simp add: iteration_def body_def Let_def open_read_def open_write_def)

lemma iteration_fixed:
  assumes "resolve (fs w) p = Inr i" "inodes (fs w) ! i = Regular (Text t) True True"
  shows "iteration p w =
       (w\<lparr>opened := opened w @ [OpenRead p, OpenWrite p],
           fs := (fs w)\<lparr>inodes :=
             (inodes (fs w))[i := Regular (Text (patch (universal_newlines t))) True True]\<rparr>,
           console := console w @ [''Fixed '' @ p]\<rparr>, Done)"
  using assms
  by (simp add: iteration_def body_def Let_def open_read_def open_write_def patch_eq)

lemma iteration_cases:
  obtains (blocks) "open_read (fs w) p = Blocks"
      "iteration p w = (w\<lparr>opened := opened w @ [OpenRead p]\<rparr>, Blocked)"
    | (read_fails) e where "open_read (fs w) p = Raises e"
      "iteration p w =
         (w\<lparr>opened := opened w @ [OpenRead p],
             console := console w @ [''Error processing '' @ p @ '': '' @ message e]\<rparr>, Done)"
    | (write_fails) i t where "resolve (fs w) p = Inr i"
      "inodes (fs w) ! i = Regular (Text t) True False"
      "iteration p w =
         (w\<lparr>opened := opened w @ [OpenRead p, OpenWrite p],
             console := console w @
               [''Error processing '' @ p @ '': '' @ message (PermissionError p)]\<rparr>, Done)"
    | (fixed) i t where "resolve (fs w) p = Inr i"
      "inodes (fs w) ! i = Regular (Text t) True True"
      "iteration p w =
         (w\<lparr>opened := opened w @ [OpenRead p, OpenWrite p],
             fs := (fs w)\<lparr>inodes :=
               (inodes (fs w))[i := Regular (Text (patch (universal_newlines t))) True True]\<rparr>,
             console := console w @ [''Fixed '' @ p]\<rparr>, Done)"
proof (cases "open_read (fs w) p")
  case Blocks
  show ?thesis by (rule blocks [OF Blocks iteration_blocks [OF Blocks]])
next
  case (Raises e)
  show ?thesis by (rule read_fails [OF Raises iteration_read_fails [OF Raises]])
next
  case (Returns c)
  then obtain i t wr where r: "resolve (fs w) p = Inr i"
    and n: "inodes (fs w) ! i = Regular (Text t) True wr"
    unfolding open_read_returns by blast
  show ?thesis
  proof (cases wr)
    case True
    with n have n': "inodes (fs w) ! i = Regular (Text t) True True" by simp
    show ?thesis by (rule fixed [OF r n' iteration_fixed [OF r n']])
  next
    case False
    with n have n': "inodes (fs w) ! i = Regular (Text t) True False" by simp
    show ?thesis by (rule write_fails [OF r n' iteration_write_fails [OF r n']])
  qed
qed

declare for_loop.simps(2) [simp del]

lemma strip_update:
  assumes "xs ! i = Regular (Text t) r w"
  shows "map strip (xs[i := Regular (Text t') r w]) = map strip xs"
proof (cases "i < length xs")
  case True
  with assms show ?thesis by (simp add: map_update list_update_same_conv)
next
  case False
  then show ?thesis by (simp add: list_update_beyond)
qed

lemma iteration_flow:
  "snd (iteration p w) = (if open_read (fs w) p = Blocks then Blocked else Done)"
proof (cases rule: iteration_cases [of w p])
  case blocks
  then show ?thesis by simp
next
  case (read_fails e)
  then show ?thesis by simp
next
  case (write_fails i t)
  then show ?thesis by (simp add: open_read_blocks)
next
  case (fixed i t)
  then show ?thesis by (simp add: open_read_blocks)
qed

lemma iteration_shape: "same_shape (fs (fst (iteration p w))) (fs w)"
  by (rule iteration_cases [of w p]) (simp_all add: same_shape_def strip_update)

lemma iteration_console: "console (fst (iteration p w)) = console w @ report (fs w) p"
proof (cases rule: iteration_cases [of w p])
  case blocks
  then show ?thesis by (simp add: report_def outcome_eq)
next
  case (read_fails e)
  then show ?thesis by (simp add: report_def outcome_eq)
next
  case (write_fails i t)
  then show ?thesis by (simp add: report_def outcome_node)
next
  case (fixed i t)
  then show ?thesis by (simp add: report_def outcome_node)
qed

lemma iteration_opened:
  "opened (fst (iteration p w)) =
     opened w @ OpenRead p # (case open_read (fs w) p of Returns c \<Rightarrow> [OpenWrite p] | _ \<Rightarrow> [])"
  by (rule iteration_cases [of w p]) (simp_all add: open_read_def)

lemma iteration_untouched:
  assumes "resolve (fs w) p \<noteq> Inr i"
  shows "inodes (fs (fst (iteration p w))) ! i = inodes (fs w) ! i"
  using assms by (rule_tac iteration_cases [of w p]) auto

lemma for_loop_Cons:
  "open_read (fs w) p \<noteq> Blocks \<Longrightarrow> for_loop (p # ps) w = for_loop ps (fst (iteration p w))"
  using iteration_flow [of p w]
  by (cases "iteration p w") (simp add: for_loop.simps(2))

lemma for_loop_blocks:
  "open_read (fs w) p = Blocks \<Longrightarrow>
     for_loop (p # ps) w = (w\<lparr>opened := opened w @ [OpenRead p]\<rparr>, Blocked)"
  by (simp add: for_loop.simps(2) iteration_blocks)

lemma for_loop_invariant:
  assumes "\<And>q w. q \<in> set ps \<Longrightarrow> I w \<Longrightarrow> I (fst (iteration q w))" and "I w"
  shows "I (fst (for_loop ps w))"
  using assms
proof (induction ps arbitrary: w)
  case Nil
  then show ?case by simp
next
  case (Cons p ps)
  have step: "I (fst (iteration p w))" using Cons.prems by simp
  show ?case
  proof (cases "open_read (fs w) p = Blocks")
    case True
    with step show ?thesis by (simp add: for_loop_blocks iteration_blocks)
  next
    case False
    with Cons.IH [of "fst (iteration p w)"] Cons.prems(1) step
    show ?thesis by (simp add: for_loop_Cons)
  qed
qed

lemma for_loop_shape: "same_shape (fs (fst (for_loop ps w))) (fs w)"
proof (rule for_loop_invariant [where I = "\<lambda>v::world. same_shape (fs v) (fs w)"])
  fix q and v :: world assume "same_shape (fs v) (fs w)"
  with iteration_shape [of q v] show "same_shape (fs (fst (iteration q v))) (fs w)"
    by (rule same_shape_trans)
qed simp

lemma same_shape_noblock:
  "same_shape f g \<Longrightarrow>
     list_all (\<lambda>q. open_read f q \<noteq> Blocks) ps = list_all (\<lambda>q. open_read g q \<noteq> Blocks) ps"
  by (simp add: list_all_iff same_shape_blocks [of f g])

lemma iteration_noblock:
  "list_all (\<lambda>q. open_read (fs (fst (iteration p w))) q \<noteq> Blocks) ps =
     list_all (\<lambda>q. open_read (fs w) q \<noteq> Blocks) ps"
  by (rule same_shape_noblock) (rule iteration_shape)

lemma for_loop_done:
  "list_all (\<lambda>q. open_read (fs w) q \<noteq> Blocks) ps \<Longrightarrow> snd (for_loop ps w) = Done"
proof (induction ps arbitrary: w)
  case Nil
  then show ?case by simp
next
  case (Cons p ps)
  then show ?case by (simp add: for_loop_Cons iteration_noblock)
qed

lemma for_loop_hangs:
  "\<not> list_all (\<lambda>q. open_read (fs w) q \<noteq> Blocks) ps \<Longrightarrow> snd (for_loop ps w) = Blocked"
proof (induction ps arbitrary: w)
  case Nil
  then show ?case by simp
next
  case (Cons p ps)
  show ?case
  proof (cases "open_read (fs w) p = Blocks")
    case True
    then show ?thesis by (simp add: for_loop_blocks)
  next
    case False
    with Cons show ?thesis by (simp add: for_loop_Cons iteration_noblock)
  qed
qed

lemma for_loop_console:
  "console (fst (for_loop ps w)) =
     console w @ concat (map (report (fs w)) (takeWhile (\<lambda>q. open_read (fs w) q \<noteq> Blocks) ps))"
proof (induction ps arbitrary: w)
  case Nil
  then show ?case by simp
next
  case (Cons p ps)
  show ?case
  proof (cases "open_read (fs w) p = Blocks")
    case True
    then show ?thesis by (simp add: for_loop_blocks)
  next
    case False
    let ?v = "fst (iteration p w)"
    have s: "same_shape (fs ?v) (fs w)" by (rule iteration_shape)
    have "report (fs ?v) = report (fs w)"
      by (rule ext) (rule same_shape_report [OF s])
    moreover have "(\<lambda>q. open_read (fs ?v) q \<noteq> Blocks) = (\<lambda>q. open_read (fs w) q \<noteq> Blocks)"
      by (rule ext) (simp add: same_shape_blocks [OF s])
    ultimately show ?thesis
      using False Cons [of ?v] by (simp add: for_loop_Cons iteration_console)
  qed
qed

lemma same_shape_returns:
  assumes "same_shape f g"
  shows "(case open_read f p of Returns c \<Rightarrow> [OpenWrite p] | _ \<Rightarrow> []) =
         (case open_read g p of Returns c \<Rightarrow> [OpenWrite p] | _ \<Rightarrow> [])"
proof (cases "resolve g p")
  case (Inl e)
  with same_shape_resolve [OF assms, of p] show ?thesis by (simp add: open_read_def)
next
  case (Inr i)
  from same_shape_strip [OF assms resolve_bound [OF Inr]]
  have "strip (inodes f ! i) = strip (inodes g ! i)" .
  then have "(case open_read f p of Returns c \<Rightarrow> [OpenWrite p] | _ \<Rightarrow> []) =
      (case open_read g p of Returns c \<Rightarrow> [OpenWrite p] | _ \<Rightarrow> [])"
    using Inr same_shape_resolve [OF assms, of p]
    by (cases "inodes f ! i" rule: strip.cases; cases "inodes g ! i" rule: strip.cases)
       (simp_all add: open_read_def)
  then show ?thesis .
qed

lemma same_shape_events: "same_shape f g \<Longrightarrow> events f p = events g p"
  by (simp add: events_def same_shape_returns [of f g])

lemma for_loop_opened:
  "list_all (\<lambda>q. open_read (fs w) q \<noteq> Blocks) ps \<Longrightarrow>
     opened (fst (for_loop ps w)) = opened w @ concat (map (events (fs w)) ps)"
proof (induction ps arbitrary: w)
  case Nil
  then show ?case by simp
next
  case (Cons p ps)
  let ?v = "fst (iteration p w)"
  have s: "same_shape (fs ?v) (fs w)" by (rule iteration_shape)
  have "events (fs ?v) = events (fs w)"
    by (rule ext) (rule same_shape_events [OF s])
  with Cons.prems Cons.IH [of ?v] show ?case
    by (simp add: for_loop_Cons iteration_noblock iteration_opened events_def)
qed

lemma for_loop_opened_paths:
  assumes "ev \<in> set (opened (fst (for_loop ps w)))"
  shows "ev \<in> set (opened w) \<or> event_path ev \<in> set ps"
proof -
  have "\<forall>ev \<in> set (opened (fst (for_loop ps w))). ev \<in> set (opened w) \<or> event_path ev \<in> set ps"
  proof (rule for_loop_invariant
      [where I = "\<lambda>v::world. \<forall>ev \<in> set (opened v). ev \<in> set (opened w) \<or> event_path ev \<in> set ps"])
    fix q and v :: world
    assume "q \<in> set ps"
      and "\<forall>ev \<in> set (opened v). ev \<in> set (opened w) \<or> event_path ev \<in> set ps"
    then show "\<forall>ev \<in> set (opened (fst (iteration q v))).
        ev \<in> set (opened w) \<or> event_path ev \<in> set ps"
      by (auto simp: iteration_opened split: result.splits)
  qed simp
  with assms show ?thesis by blast
qed

lemma for_loop_untouched:
  assumes "list_all (\<lambda>q. resolve (fs w) q \<noteq> Inr i) ps"
  shows "inodes (fs (fst (for_loop ps w))) ! i = inodes (fs w) ! i"
proof -
  let ?I = "\<lambda>v::world. same_shape (fs v) (fs w) \<and> inodes (fs v) ! i = inodes (fs w) ! i"
  have "?I (fst (for_loop ps w))"
  proof (rule for_loop_invariant [where I = ?I])
    fix q and v :: world assume q: "q \<in> set ps" and v: "?I v"
    from q assms have "resolve (fs w) q \<noteq> Inr i" by (simp add: list_all_iff)
    with v have "resolve (fs v) q \<noteq> Inr i" by (simp add: same_shape_resolve [of "fs v" "fs w"])
    then have "inodes (fs (fst (iteration q v))) ! i = inodes (fs v) ! i"
      by (rule iteration_untouched)
    moreover from v iteration_shape [of q v] have "same_shape (fs (fst (iteration q v))) (fs w)"
      by (blast intro: same_shape_trans)
    ultimately show "?I (fst (iteration q v))" using v by simp
  qed simp
  then show ?thesis by simp
qed

lemma for_loop_entries: "entries (fs (fst (for_loop ps w))) = entries (fs w)"
  using for_loop_shape [of ps w] by (simp add: same_shape_def)

lemma for_loop_length: "length (inodes (fs (fst (for_loop ps w)))) = length (inodes (fs w))"
  using for_loop_shape [of ps w] by (rule same_shape_length)

lemma run_eq:
  "run fs0 ok =
     (fst (for_loop files \<lparr>fs = fs0, console = [], opened = []\<rparr>),
      if list_all (\<lambda>q. open_read fs0 q \<noteq> Blocks) files
      then Exit (if ok then 0 else 120) else Hangs)"
proof (cases "list_all (\<lambda>q. open_read fs0 q \<noteq> Blocks) files")
  case True
  with for_loop_done [of "\<lparr>fs = fs0, console = [], opened = []\<rparr>" files]
  show ?thesis
    by (cases "for_loop files \<lparr>fs = fs0, console = [], opened = []\<rparr>") (simp add: run_def)
next
  case False
  with for_loop_hangs [of "\<lparr>fs = fs0, console = [], opened = []\<rparr>" files]
  show ?thesis
    by (cases "for_loop files \<lparr>fs = fs0, console = [], opened = []\<rparr>") (simp add: run_def)
qed

lemma distinct_files: "distinct files"
  by (simp add: files_def)

lemma universal_newlines_no_cr: "13 \<notin> set (universal_newlines t)"
  by (induction t rule: universal_newlines.induct) simp_all

lemma universal_newlines_id: "13 \<notin> set t \<Longrightarrow> universal_newlines t = t"
  by (induction t rule: universal_newlines.induct) simp_all

lemma universal_newlines_idem [simp]:
  "universal_newlines (universal_newlines t) = universal_newlines t"
  by (rule universal_newlines_id) (rule universal_newlines_no_cr)

lemma universal_newlines_eq_iff: "universal_newlines t = t \<longleftrightarrow> 13 \<notin> set t"
  using universal_newlines_no_cr [of t] universal_newlines_id [of t] by auto

lemma iteration_resolve: "resolve (fs (fst (iteration q w))) x = resolve (fs w) x"
  by (rule same_shape_resolve) (rule iteration_shape)

lemma for_loop_resolve: "resolve (fs (fst (for_loop ps w))) x = resolve (fs w) x"
  by (rule same_shape_resolve) (rule for_loop_shape)

lemma iteration_writes:
  assumes "resolve (fs w) p = Inr i" "inodes (fs w) ! i = Regular (Text t) True True"
  shows "inodes (fs (fst (iteration p w))) ! i =
           Regular (Text (patch (universal_newlines t))) True True"
  using iteration_fixed [OF assms] resolve_bound [OF assms(1)] by simp

lemma iteration_not_writable:
  assumes "\<And>t. inodes (fs w) ! i \<noteq> Regular (Text t) True True"
  shows "inodes (fs (fst (iteration q w))) ! i = inodes (fs w) ! i"
proof (cases rule: iteration_cases [of w q])
  case (fixed j t)
  with assms [of t] have "j \<noteq> i" by auto
  with fixed show ?thesis by simp
qed simp_all

lemma iteration_keeps:
  assumes "inodes (fs w) ! i = Regular (Text t) True True"
    and "universal_newlines t = u" and "patch u = u"
  shows "inodes (fs (fst (iteration q w))) ! i = Regular (Text t) True True \<or>
         inodes (fs (fst (iteration q w))) ! i = Regular (Text u) True True"
proof (cases "resolve (fs w) q = Inr i")
  case True
  from iteration_writes [OF True assms(1)] assms(2,3) show ?thesis by simp
next
  case False
  from iteration_untouched [OF False] assms(1) show ?thesis by simp
qed

lemma for_loop_patched:
  assumes "list_all (\<lambda>q. open_read (fs w) q \<noteq> Blocks) ps"
    and "distinct ps" and "p \<in> set ps"
    and "resolve (fs w) p = Inr i" and "inodes (fs w) ! i = Regular (Text t) True True"
    and "list_all (\<lambda>q. q = p \<or> resolve (fs w) q \<noteq> Inr i) ps"
  shows "inodes (fs (fst (for_loop ps w))) ! i =
           Regular (Text (patch (universal_newlines t))) True True"
  using assms
proof (induction ps arbitrary: w)
  case Nil
  then show ?case by simp
next
  case (Cons q ps)
  let ?v = "fst (iteration q w)"
  from Cons.prems(1) have nb: "open_read (fs w) q \<noteq> Blocks" by simp
  show ?case
  proof (cases "q = p")
    case True
    with Cons.prems(2) have "p \<notin> set ps" by simp
    with Cons.prems(6) have "list_all (\<lambda>q. resolve (fs ?v) q \<noteq> Inr i) ps"
      by (auto simp: list_all_iff iteration_resolve)
    from for_loop_untouched [OF this] iteration_writes [OF Cons.prems(4,5)] True nb
    show ?thesis by (simp add: for_loop_Cons)
  next
    case False
    with Cons.prems(6) have "resolve (fs w) q \<noteq> Inr i" by simp
    from iteration_untouched [OF this] Cons.prems(5)
    have n: "inodes (fs ?v) ! i = Regular (Text t) True True" by simp
    have "inodes (fs (fst (for_loop ps ?v))) ! i =
        Regular (Text (patch (universal_newlines t))) True True"
    proof (rule Cons.IH [of ?v])
      show "list_all (\<lambda>q. open_read (fs ?v) q \<noteq> Blocks) ps"
        using Cons.prems(1) by (simp add: iteration_noblock)
      show "distinct ps" using Cons.prems(2) by simp
      show "p \<in> set ps" using Cons.prems(3) False by simp
      show "resolve (fs ?v) p = Inr i" using Cons.prems(4) by (simp add: iteration_resolve)
      show "inodes (fs ?v) ! i = Regular (Text t) True True" by (rule n)
      show "list_all (\<lambda>q. q = p \<or> resolve (fs ?v) q \<noteq> Inr i) ps"
        using Cons.prems(6) by (simp add: iteration_resolve)
    qed
    with nb show ?thesis by (simp add: for_loop_Cons)
  qed
qed

lemma for_loop_keeps:
  assumes "inodes (fs w) ! i = Regular (Text u) True True"
    and "universal_newlines u = u" and "patch u = u"
  shows "inodes (fs (fst (for_loop ps w))) ! i = Regular (Text u) True True"
proof (rule for_loop_invariant [where I = "\<lambda>v::world. inodes (fs v) ! i = Regular (Text u) True True"])
  fix q and v :: world
  assume "inodes (fs v) ! i = Regular (Text u) True True"
  from iteration_keeps [OF this assms(2,3)]
  show "inodes (fs (fst (iteration q v))) ! i = Regular (Text u) True True" by simp
qed (rule assms(1))

lemma for_loop_unchanged:
  assumes "list_all (\<lambda>q. open_read (fs w) q \<noteq> Blocks) ps" and "p \<in> set ps"
    and "resolve (fs w) p = Inr i" and "inodes (fs w) ! i = Regular (Text t) True True"
    and "universal_newlines t = u" and "patch u = u"
  shows "inodes (fs (fst (for_loop ps w))) ! i = Regular (Text u) True True"
  using assms(1-5)
proof (induction ps arbitrary: w t)
  case Nil
  then show ?case by simp
next
  case (Cons q ps)
  let ?v = "fst (iteration q w)"
  from Cons.prems(1) have nb: "open_read (fs w) q \<noteq> Blocks" by simp
  have uu: "universal_newlines u = u" using Cons.prems(5) universal_newlines_idem [of t] by simp
  show ?case
  proof (cases "q = p")
    case True
    from iteration_writes [OF Cons.prems(3,4)] Cons.prems(5) assms(6) True
    have "inodes (fs ?v) ! i = Regular (Text u) True True" by simp
    from for_loop_keeps [OF this uu assms(6)] nb show ?thesis by (simp add: for_loop_Cons)
  next
    case False
    have nb': "list_all (\<lambda>q. open_read (fs ?v) q \<noteq> Blocks) ps"
      using Cons.prems(1) by (simp add: iteration_noblock)
    have p: "p \<in> set ps" using Cons.prems(2) False by simp
    have r: "resolve (fs ?v) p = Inr i" using Cons.prems(3) by (simp add: iteration_resolve)
    from iteration_keeps [OF Cons.prems(4,5) assms(6), of q]
    have "inodes (fs (fst (for_loop ps ?v))) ! i = Regular (Text u) True True"
    proof
      assume "inodes (fs ?v) ! i = Regular (Text t) True True"
      from Cons.IH [OF nb' p r this Cons.prems(5)] show ?thesis .
    next
      assume "inodes (fs ?v) ! i = Regular (Text u) True True"
      from Cons.IH [OF nb' p r this uu] show ?thesis .
    qed
    with nb show ?thesis by (simp add: for_loop_Cons)
  qed
qed

lemma for_loop_read_fails:
  assumes "open_read (fs w) p = Raises e"
  shows "node_at (fs (fst (for_loop ps w))) p = node_at (fs w) p"
proof (cases "resolve (fs w) p")
  case (Inl x)
  then show ?thesis by (simp add: node_at_def for_loop_resolve)
next
  case (Inr i)
  with assms have n: "inodes (fs w) ! i \<noteq> Regular (Text t) True True" for t
    by (auto simp: open_read_def)
  have "inodes (fs (fst (for_loop ps w))) ! i = inodes (fs w) ! i"
  proof (rule for_loop_invariant [where I = "\<lambda>v::world. inodes (fs v) ! i = inodes (fs w) ! i"])
    fix q and v :: world
    assume v: "inodes (fs v) ! i = inodes (fs w) ! i"
    with n have "inodes (fs v) ! i \<noteq> Regular (Text t) True True" for t by simp
    from iteration_not_writable [of v i q, OF this] v
    show "inodes (fs (fst (iteration q v))) ! i = inodes (fs w) ! i" by simp
  qed simp
  with Inr show ?thesis by (simp add: node_at_def for_loop_resolve)
qed

lemma events_read: "OpenRead p \<in> set (events f q) \<longleftrightarrow> q = p"
  by (auto simp: events_def split: result.splits)

lemma events_write:
  "OpenWrite p \<in> set (events f q) \<longleftrightarrow> q = p \<and> (\<exists>c. open_read f p = Returns c)"
  by (cases "open_read f q") (auto simp: events_def)

lemma events_path: "ev \<in> set (events f q) \<Longrightarrow> event_path ev = q"
  by (auto simp: events_def split: result.splits)

lemma run_blocks:
  "open_read fs0 (hd files) = Blocks \<Longrightarrow>
     run fs0 ok = (\<lparr>fs = fs0, console = [], opened = [OpenRead (hd files)]\<rparr>, Hangs)"
  unfolding run_def files_def by (simp add: for_loop_blocks)

lemma run_world:
  "fst (run fs0 ok) = fst (for_loop files \<lparr>fs = fs0, console = [], opened = []\<rparr>)"
  by (simp add: run_eq)

lemma run_console:
  "console (fst (run fs0 ok)) =
     concat (map (report fs0) (takeWhile (\<lambda>q. open_read fs0 q \<noteq> Blocks) files))"
  using for_loop_console [of files "\<lparr>fs = fs0, console = [], opened = []\<rparr>"]
  by (simp add: run_world)

lemma run_console_all:
  "list_all (\<lambda>q. open_read fs0 q \<noteq> Blocks) files \<Longrightarrow>
     console (fst (run fs0 ok)) = concat (map (report fs0) files)"
  by (simp add: run_console list_all_iff takeWhile_eq_all_conv [THEN iffD2])

lemma run_opened:
  "list_all (\<lambda>q. open_read fs0 q \<noteq> Blocks) files \<Longrightarrow>
     opened (fst (run fs0 ok)) = concat (map (events fs0) files)"
  using for_loop_opened [of "\<lparr>fs = fs0, console = [], opened = []\<rparr>" files]
  by (simp add: run_world)

lemma run_resolve: "resolve (fs (fst (run fs0 ok))) p = resolve fs0 p"
  by (simp add: run_world for_loop_resolve)

lemma run_node_at:
  "resolve fs0 p = Inr i \<Longrightarrow>
     node_at (fs (fst (run fs0 ok))) p = Some (inodes (fs (fst (run fs0 ok))) ! i)"
  by (simp add: node_at_def run_resolve)

lemma report_raises:
  "open_read f p = Raises e \<Longrightarrow>
     report f p = [''Error processing '' @ p @ '': '' @ message e]"
  by (simp add: report_def outcome_eq)

lemma report_fixed:
  "resolve f p = Inr i \<Longrightarrow> inodes f ! i = Regular (Text t) True True \<Longrightarrow>
     report f p = [''Fixed '' @ p]"
  by (simp add: report_def outcome_node)

lemma in_concat_map: "p \<in> set ps \<Longrightarrow> x \<in> set (f p) \<Longrightarrow> x \<in> set (concat (map f ps))"
  by auto

lemma report_length: "open_read f p \<noteq> Blocks \<Longrightarrow> length (report f p) = 1"
  using outcome_blocked [of f p] by (cases "outcome f p") (simp_all add: report_def)

lemma length_concat_ones:
  "list_all (\<lambda>q. length (f q) = 1) ps \<Longrightarrow> length (concat (map f ps)) = length ps"
  by (induction ps) simp_all



lemma fs_of_simps [simp]:
  "entries (fs_of es ns) p = (case map_of es p of None \<Rightarrow> Absent | Some e \<Rightarrow> e)"
  "inodes (fs_of es ns) = ns"
  by (simp_all add: fs_of_def)

lemma patch_closer:
  assumes "52 \<notin> set pre"
  shows "patch (pre @ closer) = pre @ finally_block @ closer"
proof -
  from assms no_four(2) have "52 \<notin> set (pre @ closer)" by simp
  with contains_auth_check_four [of "pre @ closer"]
  have "\<not> contains_auth_check (pre @ closer)" by blast
  from add_try_block_none [OF this] add_finally_block_closer [of "[]" pre]
  show ?thesis by (simp add: patch_def add_try_block_def add_finally_block_def sub_def)
qed

lemma no_four_identity:
  assumes "52 \<notin> set s" "\<not> ends_with_closer s"
  shows "patch s = s"
proof -
  from assms(1) contains_auth_check_four [of s] have "\<not> contains_auth_check s" by blast
  then show ?thesis using assms(2) by (rule not_ends_with_closer_identity)
qed

lemma run_reads:
  assumes "list_all (\<lambda>q. open_read fs0 q \<noteq> Blocks) files" and "p \<in> set files"
  shows "OpenRead p \<in> set (opened (fst (run fs0 ok)))"
proof -
  have "OpenRead p \<in> set (events fs0 p)" by (simp add: events_read)
  with assms(2) have "OpenRead p \<in> set (concat (map (events fs0) files))"
    by (rule in_concat_map)
  then show ?thesis by (simp only: run_opened [OF assms(1)])
qed

lemma run_writes:
  assumes "list_all (\<lambda>q. open_read fs0 q \<noteq> Blocks) files" and "p \<in> set files"
    and "open_read fs0 p = Returns c"
  shows "OpenWrite p \<in> set (opened (fst (run fs0 ok)))"
proof -
  from assms(3) have "OpenWrite p \<in> set (events fs0 p)" by (simp add: events_write)
  with assms(2) have "OpenWrite p \<in> set (concat (map (events fs0) files))"
    by (rule in_concat_map)
  then show ?thesis by (simp only: run_opened [OF assms(1)])
qed

lemma run_no_write:
  assumes "list_all (\<lambda>q. open_read fs0 q \<noteq> Blocks) files" and "open_read fs0 p = Raises e"
  shows "OpenWrite p \<notin> set (opened (fst (run fs0 ok)))"
  using assms(2) by (simp add: run_opened [OF assms(1)] events_write)

lemma run_line:
  assumes "list_all (\<lambda>q. open_read fs0 q \<noteq> Blocks) files" and "p \<in> set files"
    and "x \<in> set (report fs0 p)"
  shows "x \<in> set (console (fst (run fs0 ok)))"
proof -
  from assms(2,3) have "x \<in> set (concat (map (report fs0) files))" by (rule in_concat_map)
  then show ?thesis by (simp only: run_console_all [OF assms(1)])
qed

lemma run_console_length:
  assumes "list_all (\<lambda>q. open_read fs0 q \<noteq> Blocks) files"
  shows "length (console (fst (run fs0 ok))) = length files"
proof -
  from assms have "list_all (\<lambda>q. length (report fs0 q) = 1) files"
    by (simp add: list_all_iff report_length)
  then show ?thesis by (simp only: run_console_all [OF assms] length_concat_ones)
qed

lemma run_patched:
  assumes "list_all (\<lambda>q. open_read fs0 q \<noteq> Blocks) files" and "p \<in> set files"
    and "resolve fs0 p = Inr i" and "inodes fs0 ! i = Regular (Text t) True True"
    and "list_all (\<lambda>q. q = p \<or> resolve fs0 q \<noteq> Inr i) files"
  shows "inodes (fs (fst (run fs0 ok))) ! i =
           Regular (Text (patch (universal_newlines t))) True True"
  using for_loop_patched [of "\<lparr>fs = fs0, console = [], opened = []\<rparr>" files p i t] assms
  by (simp add: run_world distinct_files)

lemma run_unchanged:
  assumes "list_all (\<lambda>q. open_read fs0 q \<noteq> Blocks) files" and "p \<in> set files"
    and "resolve fs0 p = Inr i" and "inodes fs0 ! i = Regular (Text t) True True"
    and "patch (universal_newlines t) = universal_newlines t"
  shows "inodes (fs (fst (run fs0 ok))) ! i = Regular (Text (universal_newlines t)) True True"
  using for_loop_unchanged
    [of "\<lparr>fs = fs0, console = [], opened = []\<rparr>" files p i t "universal_newlines t"] assms
  by (simp add: run_world)

lemma run_read_fails:
  "open_read fs0 p = Raises e \<Longrightarrow> node_at (fs (fst (run fs0 ok))) p = node_at fs0 p"
  using for_loop_read_fails [of "\<lparr>fs = fs0, console = [], opened = []\<rparr>" p e files]
  by (simp add: run_world)

lemma run_entries: "entries (fs (fst (run fs0 ok))) = entries fs0"
  using for_loop_entries [of files "\<lparr>fs = fs0, console = [], opened = []\<rparr>"]
  by (simp add: run_world)

section \<open>The properties\<close>

text \<open>
  C10. The second substitution replaces at most once, whatever the text. On a text
  that ends with a newline, a closing brace and optional whitespace, the result is
  the text before that newline followed by the fixed suffix
  \<open>\n  } finally {\n    await sql.end();\n  }\n}\<close>: the whitespace after the brace is
  gone.
\<close>

theorem add_finally_block_once:
  "snd (subn closing_brace_pattern finally_template False content) \<le> 1 \<and>
   (list_all isspace tw \<longrightarrow>
      add_finally_block (pre @ closer @ tw) = pre @ finally_block @ closer \<and>
      finally_block @ closer =
        10 # lit ''  } finally {'' @ 10 # lit ''    await sql.end();'' @ 10 # lit ''  }'' @
        10 # lit ''}'')"
proof -
  have "finally_block @ closer =
        10 # lit ''  } finally {'' @ 10 # lit ''    await sql.end();'' @ 10 # lit ''  }'' @
        10 # lit ''}''"
    by (simp add: finally_block_def closer_def)
  moreover have "add_finally_block (pre @ closer @ tw) = pre @ finally_block @ closer"
    if "list_all isspace tw"
    using add_finally_block_closer [of tw pre] that
    by (simp add: add_finally_block_def sub_def list_all_iff)
  ultimately show ?thesis
    using subn_closing_le1 [of finally_template False content] by blast
qed

theorem add_finally_block_once_witness:
  "list_all isspace [32, 10] \<and>
   add_finally_block (lit ''}'' @ closer @ [32, 10]) = lit ''}'' @ finally_block @ closer"
  using add_finally_block_once [of "[]" "[32, 10]" "lit ''}''"]
  by (simp add: isspace_def)

text \<open>
  C1, as amended. When the auth check pattern matches exactly once in the content, after
  the text \<open>pre\<close>, and the text after the match ends with a newline, a closing brace
  and optional whitespace: the match is a guard followed by a non-empty run of
  whitespace; the output keeps \<open>pre\<close> and the guard, has a blank line and the setup code
  in place of that whitespace, keeps the text up to the final newline and brace, and
  ends with the finally block and the newline and brace. Each substitution replaces
  once.
\<close>

theorem patch_single_auth_check:
  assumes "search auth_check_pattern False content = Some (pre, m)"
    and "search auth_check_pattern False (remaining m) = None"
    and "remaining m = mid @ closer @ tw"
    and "list_all isspace tw"
  shows "\<exists>guard ws. group1 m = Some guard \<and> matched m = guard @ ws \<and> spaces1 ws \<and>
           (\<exists>w1 q1 q2 w2. guard = guard_text w1 q1 q2 w2 \<and>
              spaces1 w1 \<and> is_quote q1 \<and> is_quote q2 \<and> spaces1 w2) \<and>
           content = pre @ guard @ ws @ mid @ closer @ tw \<and>
           snd (subn auth_check_pattern try_block_template False content) = 1 \<and>
           snd (subn closing_brace_pattern finally_template False (add_try_block content)) = 1 \<and>
           patch content =
             pre @ guard @ [10, 10] @ db_connection_code @ mid @ finally_block @ closer"
proof -
  from patch_one_match [OF assms] obtain guard ws where
    "group1 m = Some guard" "matched m = guard @ ws" "spaces1 ws"
    "\<exists>w1 q1 q2 w2. guard = guard_text w1 q1 q2 w2 \<and>
       spaces1 w1 \<and> is_quote q1 \<and> is_quote q2 \<and> spaces1 w2"
    "content = pre @ guard @ ws @ mid @ closer @ tw"
    "subn auth_check_pattern try_block_template False content =
       (pre @ guard @ [10, 10] @ db_connection_code @ mid @ closer @ tw, 1)"
    "subn closing_brace_pattern finally_template False (add_try_block content) =
       (pre @ guard @ [10, 10] @ db_connection_code @ mid @ finally_block @ closer, 1)"
    "patch content = pre @ guard @ [10, 10] @ db_connection_code @ mid @ finally_block @ closer"
    by blast
  then show ?thesis by simp
qed

theorem patch_single_auth_check_witness:
  "search auth_check_pattern False handler_example =
     Some (handler_head, \<lparr>matched = handler_guard @ [10, 32, 32], group1 = Some handler_guard,
                          remaining = handler_body @ closer @ [10]\<rparr>) \<and>
   search auth_check_pattern False (handler_body @ closer @ [10]) = None \<and>
   list_all isspace [10] \<and>
   handler_example =
     handler_head @ handler_guard @ [10, 32, 32] @ handler_body @ closer @ [10] \<and>
   patch handler_example =
     handler_head @ handler_guard @ [10, 10] @ db_connection_code @ handler_body @
     finally_block @ closer"
proof -
  let ?m = "\<lparr>matched = handler_guard @ [10, 32, 32], group1 = Some handler_guard,
             remaining = handler_body @ closer @ [10]\<rparr>"
  have 1: "search auth_check_pattern False handler_example = Some (handler_head, ?m)"
    by (rule patch_handler_example(1))
  have 2: "search auth_check_pattern False (remaining ?m) = None"
    by (simp add: patch_handler_example(2))
  have 3: "remaining ?m = handler_body @ closer @ [10]" by simp
  have 4: "list_all isspace [10]" by simp
  from patch_single_auth_check [OF 1 2 3 4] obtain guard ws where
    "group1 ?m = Some guard" "matched ?m = guard @ ws"
    "handler_example = handler_head @ guard @ ws @ handler_body @ closer @ [10]"
    "patch handler_example =
       handler_head @ guard @ [10, 10] @ db_connection_code @ handler_body @
       finally_block @ closer" by blast
  then have "handler_example =
      handler_head @ handler_guard @ [10, 32, 32] @ handler_body @ closer @ [10] \<and>
    patch handler_example =
      handler_head @ handler_guard @ [10, 10] @ db_connection_code @ handler_body @
      finally_block @ closer" by simp
  with 1 4 patch_handler_example(2) show ?thesis by simp
qed

text \<open>
  C1 as stated fails. On the example handler the three characters after the guard (a
  newline and two spaces) become two newlines and the newline after the final brace is
  dropped, so the output is shorter than the original with the two blocks added. On a
  text with two auth checks the setup code is inserted twice.
\<close>

theorem patch_preserves_counterexample:
  "handler_example =
     handler_head @ handler_guard @ [10, 32, 32] @ handler_body @ closer @ [10] \<and>
   patch handler_example =
     handler_head @ handler_guard @ [10, 10] @ db_connection_code @ handler_body @
     finally_block @ closer \<and>
   length (patch handler_example) <
     length handler_example + length db_connection_code + length finally_block \<and>
   subn auth_check_pattern try_block_template False
       (handler_guard @ [10] @ handler_guard @ [10] @ lit ''x'' @ closer) =
     (handler_guard @ [10, 10] @ db_connection_code @
      handler_guard @ [10, 10] @ db_connection_code @ lit ''x'' @ closer, 2)"
proof -
  have e: "handler_example =
     handler_head @ handler_guard @ [10, 32, 32] @ handler_body @ closer @ [10]"
    using handler_example_parts by (simp add: lit_def)
  note p = patch_handler_example(3)
  have l: "length (patch handler_example) <
     length handler_example + length db_connection_code + length finally_block"
    unfolding p by (subst e) simp
  have sp: "spaces1 (10 # lit ''    '')" "spaces1 (10 # lit ''  '')" "is_quote 39" "spaces1 [10]"
    by (simp_all add: spaces1_def is_quote_def lit_def isspace_def)
  let ?x = "lit ''x'' @ closer"
  let ?m2 = "\<lparr>matched = handler_guard @ [10], group1 = Some handler_guard, remaining = ?x\<rparr>"
  let ?m1 = "\<lparr>matched = handler_guard @ [10], group1 = Some handler_guard,
              remaining = handler_guard @ [10] @ ?x\<rparr>"
  have hx: "\<not> isspace (hd ?x)" by (simp add: lit_def isspace_def)
  have hg: "\<not> isspace (hd (handler_guard @ [10] @ ?x))"
    by (simp add: handler_guard_def guard_text_def lit_def isspace_def)
  have s2: "search auth_check_pattern False (handler_guard @ [10] @ ?x) = Some ([], ?m2)"
    using auth_check_complete [OF sp(1) sp(3) sp(3) sp(2) sp(4), of ?x False] hx
    unfolding handler_guard_def by (intro search_here) simp
  have s1: "search auth_check_pattern False (handler_guard @ [10] @ handler_guard @ [10] @ ?x) =
      Some ([], ?m1)"
    using auth_check_complete [OF sp(1) sp(3) sp(3) sp(2) sp(4),
        of "handler_guard @ [10] @ ?x" False] hg
    unfolding handler_guard_def by (intro search_here) simp
  have s3: "search auth_check_pattern False ?x = None"
    by (rule no_four_no_match) (simp add: no_four four_lit)
  have "subn auth_check_pattern try_block_template False ?x = (?x, 0)"
    by (rule subn_none [OF s3])
  with subn_some [OF s2, of try_block_template]
  have "subn auth_check_pattern try_block_template False (handler_guard @ [10] @ ?x) =
      (handler_guard @ [10, 10] @ db_connection_code @ ?x, 1)"
    by (simp add: try_block_template_def)
  with subn_some [OF s1, of try_block_template]
  have "subn auth_check_pattern try_block_template False
      (handler_guard @ [10] @ handler_guard @ [10] @ ?x) =
      (handler_guard @ [10, 10] @ db_connection_code @
       handler_guard @ [10, 10] @ db_connection_code @ ?x, 2)"
    by (simp add: try_block_template_def)
  with e p l show ?thesis by simp
qed




text \<open>
  C8. On a text in which the auth check pattern is not found, the first substitution
  replaces nothing and returns the text unchanged.
\<close>

theorem add_try_block_identity:
  assumes "\<not> contains_auth_check content"
  shows "subn auth_check_pattern try_block_template False content = (content, 0) \<and>
         add_try_block content = content"
  using add_try_block_none [OF assms] by (simp add: add_try_block_def sub_def)

theorem add_try_block_identity_witness:
  "\<not> contains_auth_check (handler_body @ closer) \<and>
   add_try_block (handler_body @ closer) = handler_body @ closer"
proof -
  have "search auth_check_pattern False (handler_body @ closer) = None"
    by (rule no_four_no_match) (simp add: no_four)
  then have 1: "\<not> contains_auth_check (handler_body @ closer)"
    by (simp add: contains_auth_check_def)
  from add_try_block_identity [OF 1] 1 show ?thesis by simp
qed

text \<open>
  C4. Suppose that no path of the list makes \<open>open\<close> wait for ever. When opening or
  reading a path of the list raises (the path names nothing, a component of it is a
  regular file, the file is a directory, may not be read, or does not decode), the
  console has the error line of that path with the message of the exception, the path is
  never opened for writing, and it names afterwards what it named before. The other
  paths are still processed: every path of the list is opened for reading and has its
  line on the console, and a readable and writable file that another path of the list
  leads to, alone, holds the patch of the text read from it, is opened for writing and
  has its success line. Without the supposition the run may wait at an earlier path and
  never get to the failing one.
\<close>

theorem read_failure_is_reported:
  assumes "p \<in> set files" and "open_read fs0 p = Raises e"
    and "list_all (\<lambda>q. open_read fs0 q \<noteq> Blocks) files"
  shows "(''Error processing '' @ p @ '': '' @ message e)
           \<in> set (console (fst (run fs0 stdout_ok))) \<and>
         OpenWrite p \<notin> set (opened (fst (run fs0 stdout_ok))) \<and>
         node_at (fs (fst (run fs0 stdout_ok))) p = node_at fs0 p \<and>
         entries (fs (fst (run fs0 stdout_ok))) p = entries fs0 p \<and>
         list_all (\<lambda>q. OpenRead q \<in> set (opened (fst (run fs0 stdout_ok)))) files \<and>
         length (console (fst (run fs0 stdout_ok))) = length files \<and>
         (q \<in> set files \<and> resolve fs0 q = Inr j \<and>
          inodes fs0 ! j = Regular (Text t) True True \<and>
          list_all (\<lambda>q'. q' = q \<or> resolve fs0 q' \<noteq> Inr j) files \<longrightarrow>
            inodes (fs (fst (run fs0 stdout_ok))) ! j =
              Regular (Text (patch (universal_newlines t))) True True \<and>
            OpenWrite q \<in> set (opened (fst (run fs0 stdout_ok))) \<and>
            (''Fixed '' @ q) \<in> set (console (fst (run fs0 stdout_ok))))"
proof -
  let ?final = "fst (run fs0 stdout_ok)"
  from assms(2) have "(''Error processing '' @ p @ '': '' @ message e) \<in> set (report fs0 p)"
    by (simp add: report_raises)
  from run_line [OF assms(3,1) this]
  have 1: "(''Error processing '' @ p @ '': '' @ message e) \<in> set (console ?final)" .
  have 2: "OpenWrite p \<notin> set (opened ?final)" by (rule run_no_write [OF assms(3,2)])
  have 3: "node_at (fs ?final) p = node_at fs0 p" by (rule run_read_fails [OF assms(2)])
  have 4: "entries (fs ?final) p = entries fs0 p" by (simp add: run_entries)
  have 5: "list_all (\<lambda>q. OpenRead q \<in> set (opened ?final)) files"
    by (simp add: list_all_iff run_reads [OF assms(3)])
  have 6: "length (console ?final) = length files" by (rule run_console_length [OF assms(3)])
  have 7: "inodes (fs ?final) ! j = Regular (Text (patch (universal_newlines t))) True True \<and>
      OpenWrite q \<in> set (opened ?final) \<and> (''Fixed '' @ q) \<in> set (console ?final)"
    if q: "q \<in> set files" and r: "resolve fs0 q = Inr j"
      and n: "inodes fs0 ! j = Regular (Text t) True True"
      and x: "list_all (\<lambda>q'. q' = q \<or> resolve fs0 q' \<noteq> Inr j) files"
  proof -
    from r n have "open_read fs0 q = Returns (universal_newlines t)"
      by (simp add: open_read_def)
    from run_writes [OF assms(3) q this] have "OpenWrite q \<in> set (opened ?final)" .
    moreover from report_fixed [OF r n] have "(''Fixed '' @ q) \<in> set (report fs0 q)" by simp
    from run_line [OF assms(3) q this] have "(''Fixed '' @ q) \<in> set (console ?final)" .
    moreover note run_patched [OF assms(3) q r n x, of stdout_ok]
    ultimately show ?thesis by simp
  qed
  from 1 2 3 4 5 6 7 show ?thesis by blast
qed

theorem read_failure_is_reported_witness:
  "''api/tenants/index.ts'' \<in> set files \<and>
   open_read (fs_of [(''api/units/index.ts'', Link 0)]
                [Regular (Text handler_example) True True]) ''api/tenants/index.ts'' =
     Raises (FileNotFoundError ''api/tenants/index.ts'') \<and>
   list_all (\<lambda>q. open_read (fs_of [(''api/units/index.ts'', Link 0)]
                               [Regular (Text handler_example) True True]) q \<noteq> Blocks) files \<and>
   ''api/units/index.ts'' \<in> set files \<and>
   resolve (fs_of [(''api/units/index.ts'', Link 0)]
              [Regular (Text handler_example) True True]) ''api/units/index.ts'' = Inr 0 \<and>
   list_all (\<lambda>q'. q' = ''api/units/index.ts'' \<or>
               resolve (fs_of [(''api/units/index.ts'', Link 0)]
                          [Regular (Text handler_example) True True]) q' \<noteq> Inr 0) files \<and>
   (''Error processing api/tenants/index.ts: '' @
      message (FileNotFoundError ''api/tenants/index.ts''))
     \<in> set (console (fst (run (fs_of [(''api/units/index.ts'', Link 0)]
                                  [Regular (Text handler_example) True True]) True))) \<and>
   OpenWrite ''api/tenants/index.ts''
     \<notin> set (opened (fst (run (fs_of [(''api/units/index.ts'', Link 0)]
                                 [Regular (Text handler_example) True True]) True))) \<and>
   inodes (fs (fst (run (fs_of [(''api/units/index.ts'', Link 0)]
                           [Regular (Text handler_example) True True]) True))) ! 0 =
     Regular (Text (patch (universal_newlines handler_example))) True True \<and>
   OpenWrite ''api/units/index.ts''
     \<in> set (opened (fst (run (fs_of [(''api/units/index.ts'', Link 0)]
                                 [Regular (Text handler_example) True True]) True))) \<and>
   ''Fixed api/units/index.ts''
     \<in> set (console (fst (run (fs_of [(''api/units/index.ts'', Link 0)]
                                  [Regular (Text handler_example) True True]) True)))"
proof -
  let ?f = "fs_of [(''api/units/index.ts'', Link 0)] [Regular (Text handler_example) True True]"
  have 1: "''api/tenants/index.ts'' \<in> set files" by (simp add: files_def)
  have 2: "open_read ?f ''api/tenants/index.ts'' =
      Raises (FileNotFoundError ''api/tenants/index.ts'')"
    by (simp add: open_read_def resolve_def)
  have 3: "list_all (\<lambda>q. open_read ?f q \<noteq> Blocks) files"
    by (simp add: files_def open_read_def resolve_def)
  have 4: "''api/units/index.ts'' \<in> set files" by (simp add: files_def)
  have 5: "resolve ?f ''api/units/index.ts'' = Inr 0" by (simp add: resolve_def)
  have 6: "inodes ?f ! 0 = Regular (Text handler_example) True True" by simp
  have 7: "list_all (\<lambda>q'. q' = ''api/units/index.ts'' \<or> resolve ?f q' \<noteq> Inr 0) files"
    by (simp add: files_def resolve_def)
  from read_failure_is_reported
    [where p = "''api/tenants/index.ts''" and ?fs0.0 = ?f
       and e = "FileNotFoundError ''api/tenants/index.ts''" and stdout_ok = True
       and q = "''api/units/index.ts''" and j = 0 and t = handler_example, OF 1 2 3]
    1 2 3 4 5 6 7
  show ?thesis by simp
qed

theorem read_failure_is_reported_counterexample:
  "''api/units/index.ts'' \<in> set files \<and>
   open_read (fs_of [(''api/tenants/index.ts'', Link 0)] [Fifo True True]) ''api/units/index.ts'' =
     Raises (FileNotFoundError ''api/units/index.ts'') \<and>
   console (fst (run (fs_of [(''api/tenants/index.ts'', Link 0)] [Fifo True True]) True)) = [] \<and>
   opened (fst (run (fs_of [(''api/tenants/index.ts'', Link 0)] [Fifo True True]) True)) =
     [OpenRead ''api/tenants/index.ts'']"
proof -
  let ?f = "fs_of [(''api/tenants/index.ts'', Link 0)] [Fifo True True]"
  have "open_read ?f (hd files) = Blocks"
    by (simp add: files_def open_read_def resolve_def)
  from run_blocks [OF this, of True]
  have "console (fst (run ?f True)) = [] \<and>
      opened (fst (run ?f True)) = [OpenRead ''api/tenants/index.ts'']"
    by (simp add: files_def)
  moreover have "''api/units/index.ts'' \<in> set files" by (simp add: files_def)
  moreover have "open_read ?f ''api/units/index.ts'' =
      Raises (FileNotFoundError ''api/units/index.ts'')"
    by (simp add: open_read_def resolve_def)
  ultimately show ?thesis by simp
qed




text \<open>
  C6. The console holds exactly one line for each path of the list that the run gets to,
  in the order of the list: the success line of the path when processing it raises
  nothing, its error line with the message of the exception otherwise. The run gets to
  the paths before the first one at which \<open>open\<close> waits for ever, which are all the paths
  when there is none; nothing is printed for the path it waits at (the last case of the
  line below, which no path before it is in).
\<close>

theorem console_is_one_line_per_file:
  "console (fst (run fs0 stdout_ok)) =
     map (\<lambda>p. case outcome fs0 p of
                 Done \<Rightarrow> ''Fixed '' @ p
               | Raised e \<Rightarrow> ''Error processing '' @ p @ '': '' @ message e
               | Blocked \<Rightarrow> [])
       (takeWhile (\<lambda>q. outcome fs0 q \<noteq> Blocked) files)"
proof -
  let ?line = "\<lambda>p. case outcome fs0 p of
                 Done \<Rightarrow> ''Fixed '' @ p
               | Raised e \<Rightarrow> ''Error processing '' @ p @ '': '' @ message e
               | Blocked \<Rightarrow> []"
  have "report fs0 = (\<lambda>p. if outcome fs0 p = Blocked then [] else [?line p])"
    by (rule ext) (simp add: report_def split: flow.splits)
  moreover have "concat (map (\<lambda>p. if P p then [] else [f p]) (takeWhile (\<lambda>q. \<not> P q) xs)) =
      map f (takeWhile (\<lambda>q. \<not> P q) xs)" for P :: "path \<Rightarrow> bool" and f :: "path \<Rightarrow> string" and xs
    by (induction xs) simp_all
  ultimately show ?thesis by (simp add: run_console outcome_blocked [symmetric])
qed

theorem console_is_one_line_per_file_witness:
  "console (fst (run (fs_of [(''api/tenants/index.ts'', Link 0), (''api/units/index.ts'', Link 1),
                             (''api/payments/index.ts'', Link 2)]
                        [Regular (Text (lit ''x'')) True True, Directory True,
                         Regular (Text (lit ''y'')) True False]) True)) =
     [''Fixed api/tenants/index.ts'',
      ''Error processing api/units/index.ts: [Errno 21] Is a directory: '' @
         repr ''api/units/index.ts'',
      ''Error processing api/leases/index.ts: [Errno 2] No such file or directory: '' @
         repr ''api/leases/index.ts'',
      ''Error processing api/payments/index.ts: [Errno 13] Permission denied: '' @
         repr ''api/payments/index.ts'',
      ''Error processing api/dashboard/stats.ts: [Errno 2] No such file or directory: '' @
         repr ''api/dashboard/stats.ts'']"
  using console_is_one_line_per_file
    [of "fs_of [(''api/tenants/index.ts'', Link 0), (''api/units/index.ts'', Link 1),
                (''api/payments/index.ts'', Link 2)]
           [Regular (Text (lit ''x'')) True True, Directory True,
            Regular (Text (lit ''y'')) True False]" True]
  by (simp add: files_def outcome_node resolve_def)

theorem console_is_one_line_per_file_counterexample:
  "console (fst (run (fs_of [(''api/tenants/index.ts'', Link 0)] [Fifo True True]) True)) = [] \<and>
   length files = 5"
proof -
  have "open_read (fs_of [(''api/tenants/index.ts'', Link 0)] [Fifo True True]) (hd files) = Blocks"
    by (simp add: files_def open_read_def resolve_def)
  from run_blocks [OF this] show ?thesis by (simp add: files_def)
qed

text \<open>
  C7. The run opens, for reading or for writing, only paths of the list, and every path
  leads after the run where it led before. The script writes to the file that a listed
  path leads to, so a file is unchanged when no path of the list leads to it, and so is
  what a path names that leads to such a file. A path outside the list that leads to the
  file of a listed path, as a symbolic link or a hard link does, names changed content.
\<close>

theorem run_touches_only_files:
  "(ev \<in> set (opened (fst (run fs0 stdout_ok))) \<longrightarrow> event_path ev \<in> set files) \<and>
   entries (fs (fst (run fs0 stdout_ok))) = entries fs0 \<and>
   length (inodes (fs (fst (run fs0 stdout_ok)))) = length (inodes fs0) \<and>
   (list_all (\<lambda>p. resolve fs0 p \<noteq> Inr i) files \<longrightarrow>
      inodes (fs (fst (run fs0 stdout_ok))) ! i = inodes fs0 ! i \<and>
      (resolve fs0 q = Inr i \<longrightarrow> node_at (fs (fst (run fs0 stdout_ok))) q = node_at fs0 q))"
proof -
  let ?init = "\<lparr>fs = fs0, console = [], opened = []\<rparr>"
  have 1: "ev \<in> set (opened (fst (run fs0 stdout_ok))) \<longrightarrow> event_path ev \<in> set files"
    using for_loop_opened_paths [of ev files ?init] by (simp add: run_world)
  have 2: "entries (fs (fst (run fs0 stdout_ok))) = entries fs0"
    using for_loop_entries [of files ?init] by (simp add: run_world)
  have 3: "length (inodes (fs (fst (run fs0 stdout_ok)))) = length (inodes fs0)"
    using for_loop_length [of files ?init] by (simp add: run_world)
  have 4: "inodes (fs (fst (run fs0 stdout_ok))) ! i = inodes fs0 ! i"
    if "list_all (\<lambda>p. resolve fs0 p \<noteq> Inr i) files"
    using for_loop_untouched [of ?init i files] that by (simp add: run_world)
  have 5: "node_at (fs (fst (run fs0 stdout_ok))) q = node_at fs0 q"
    if "list_all (\<lambda>p. resolve fs0 p \<noteq> Inr i) files" and "resolve fs0 q = Inr i"
    using 4 [OF that(1)] that(2) by (simp add: node_at_def run_resolve)
  from 1 2 3 4 5 show ?thesis by blast
qed

theorem run_touches_only_files_witness:
  "OpenWrite ''api/tenants/index.ts''
     \<in> set (opened (fst (run (fs_of [(''api/tenants/index.ts'', Link 0), (''README.md'', Link 1)]
                                [Regular (Text (lit ''x'' @ closer)) True True,
                                 Regular (Text (lit ''y'')) True True]) True))) \<and>
   event_path (OpenWrite ''api/tenants/index.ts'') \<in> set files \<and>
   list_all (\<lambda>p. resolve (fs_of [(''api/tenants/index.ts'', Link 0), (''README.md'', Link 1)]
                            [Regular (Text (lit ''x'' @ closer)) True True,
                             Regular (Text (lit ''y'')) True True]) p \<noteq> Inr 1) files \<and>
   resolve (fs_of [(''api/tenants/index.ts'', Link 0), (''README.md'', Link 1)]
              [Regular (Text (lit ''x'' @ closer)) True True,
               Regular (Text (lit ''y'')) True True]) ''README.md'' = Inr 1 \<and>
   node_at (fs (fst (run (fs_of [(''api/tenants/index.ts'', Link 0), (''README.md'', Link 1)]
                            [Regular (Text (lit ''x'' @ closer)) True True,
                             Regular (Text (lit ''y'')) True True]) True))) ''README.md'' =
     Some (Regular (Text (lit ''y'')) True True) \<and>
   node_at (fs (fst (run (fs_of [(''api/tenants/index.ts'', Link 0), (''README.md'', Link 1)]
                            [Regular (Text (lit ''x'' @ closer)) True True,
                             Regular (Text (lit ''y'')) True True]) True)))
       ''api/tenants/index.ts'' =
     Some (Regular (Text (lit ''x'' @ finally_block @ closer)) True True)"
proof -
  let ?f = "fs_of [(''api/tenants/index.ts'', Link 0), (''README.md'', Link 1)]
              [Regular (Text (lit ''x'' @ closer)) True True,
               Regular (Text (lit ''y'')) True True]"
  let ?init = "\<lparr>fs = ?f, console = [], opened = []\<rparr>"
  have nb: "list_all (\<lambda>q. open_read ?f q \<noteq> Blocks) files"
    by (simp add: files_def open_read_def resolve_def)
  have t: "''api/tenants/index.ts'' \<in> set files" by (simp add: files_def)
  have r0: "resolve ?f ''api/tenants/index.ts'' = Inr 0" by (simp add: resolve_def)
  have "open_read ?f ''api/tenants/index.ts'' = Returns (universal_newlines (lit ''x'' @ closer))"
    by (simp add: open_read_def resolve_def)
  from run_writes [OF nb t this]
  have 1: "OpenWrite ''api/tenants/index.ts'' \<in> set (opened (fst (run ?f True)))" .
  have 2: "list_all (\<lambda>p. resolve ?f p \<noteq> Inr 1) files" by (simp add: files_def resolve_def)
  have 3: "resolve ?f ''README.md'' = Inr 1" by (simp add: resolve_def)
  have cr: "universal_newlines (lit ''x'' @ closer) = lit ''x'' @ closer"
    by (rule universal_newlines_id) (simp add: lit_def closer_def)
  have "52 \<notin> set (lit ''x'')" by (simp add: four_lit)
  then have p: "patch (lit ''x'' @ closer) = lit ''x'' @ finally_block @ closer"
    by (rule patch_closer)
  have n0: "inodes ?f ! 0 = Regular (Text (lit ''x'' @ closer)) True True" by simp
  have ex: "list_all (\<lambda>q. q = ''api/tenants/index.ts'' \<or> resolve ?f q \<noteq> Inr 0) files"
    by (simp add: files_def resolve_def)
  have "inodes (fs (fst (run ?f True))) ! 0 =
      Regular (Text (patch (universal_newlines (lit ''x'' @ closer)))) True True"
    by (rule run_patched [OF nb t r0 n0 ex])
  with run_node_at [OF r0, of True] cr p
  have 4: "node_at (fs (fst (run ?f True))) ''api/tenants/index.ts'' =
      Some (Regular (Text (lit ''x'' @ finally_block @ closer)) True True)"
    by simp
  from run_touches_only_files [of "OpenWrite ''api/tenants/index.ts''" ?f True 1 "''README.md''"]
    1 2 3 4
  show ?thesis by (simp add: node_at_def resolve_def)
qed

theorem run_touches_only_files_counterexample:
  "''README.md'' \<notin> set files \<and>
   node_at (fs_of [(''api/tenants/index.ts'', Link 0), (''README.md'', Link 0)]
              [Regular (Text (lit ''x'' @ closer)) True True]) ''README.md'' =
     Some (Regular (Text (lit ''x'' @ closer)) True True) \<and>
   node_at (fs (fst (run (fs_of [(''api/tenants/index.ts'', Link 0), (''README.md'', Link 0)]
                            [Regular (Text (lit ''x'' @ closer)) True True]) True)))
       ''README.md'' =
     Some (Regular (Text (lit ''x'' @ finally_block @ closer)) True True) \<and>
   lit ''x'' @ finally_block @ closer \<noteq> lit ''x'' @ closer"
proof -
  let ?f = "fs_of [(''api/tenants/index.ts'', Link 0), (''README.md'', Link 0)]
              [Regular (Text (lit ''x'' @ closer)) True True]"
  let ?init = "\<lparr>fs = ?f, console = [], opened = []\<rparr>"
  have nb: "list_all (\<lambda>q. open_read ?f q \<noteq> Blocks) files"
    by (simp add: files_def open_read_def resolve_def)
  have t: "''api/tenants/index.ts'' \<in> set files" by (simp add: files_def)
  have r0: "resolve ?f ''api/tenants/index.ts'' = Inr 0" by (simp add: resolve_def)
  have r1: "resolve ?f ''README.md'' = Inr 0" by (simp add: resolve_def)
  have cr: "universal_newlines (lit ''x'' @ closer) = lit ''x'' @ closer"
    by (rule universal_newlines_id) (simp add: lit_def closer_def)
  have "52 \<notin> set (lit ''x'')" by (simp add: four_lit)
  then have p: "patch (lit ''x'' @ closer) = lit ''x'' @ finally_block @ closer"
    by (rule patch_closer)
  have n0: "inodes ?f ! 0 = Regular (Text (lit ''x'' @ closer)) True True" by simp
  have ex: "list_all (\<lambda>q. q = ''api/tenants/index.ts'' \<or> resolve ?f q \<noteq> Inr 0) files"
    by (simp add: files_def resolve_def)
  have "inodes (fs (fst (run ?f True))) ! 0 =
      Regular (Text (patch (universal_newlines (lit ''x'' @ closer)))) True True"
    by (rule run_patched [OF nb t r0 n0 ex])
  with run_node_at [OF r1, of True] cr p
  have 1: "node_at (fs (fst (run ?f True))) ''README.md'' =
      Some (Regular (Text (lit ''x'' @ finally_block @ closer)) True True)"
    by simp
  have 2: "''README.md'' \<notin> set files" by (simp add: files_def)
  have 3: "node_at ?f ''README.md'' = Some (Regular (Text (lit ''x'' @ closer)) True True)"
    by (simp add: node_at_def resolve_def)
  have "length (lit ''x'' @ finally_block @ closer) \<noteq> length (lit ''x'' @ closer)"
    by (simp add: finally_block_def)
  then have 4: "lit ''x'' @ finally_block @ closer \<noteq> lit ''x'' @ closer" by metis
  from 1 2 3 4 show ?thesis by simp
qed

text \<open>
  C9. Take a readable and writable file that a path of the list leads to, and the text
  read from it, in which a carriage return, alone or before a line feed, has become a
  line feed. When that text has no auth check and does not end with a newline, a closing
  brace and optional whitespace, the patch leaves it as it is; if no path of the list
  makes \<open>open\<close> wait for ever, the run opens the file for writing, the file holds the text
  as read afterwards, and the console has the success line of the path. The file is the
  same as before exactly when it had no carriage return.
\<close>

theorem unmatched_file_is_rewritten_as_read:
  assumes "p \<in> set files" and "resolve fs0 p = Inr i"
    and "inodes fs0 ! i = Regular (Text t) True True"
    and "\<not> contains_auth_check (universal_newlines t)"
    and "\<not> ends_with_closer (universal_newlines t)"
    and "list_all (\<lambda>q. open_read fs0 q \<noteq> Blocks) files"
  shows "patch (universal_newlines t) = universal_newlines t \<and>
         OpenWrite p \<in> set (opened (fst (run fs0 stdout_ok))) \<and>
         node_at (fs (fst (run fs0 stdout_ok))) p =
           Some (Regular (Text (universal_newlines t)) True True) \<and>
         (node_at (fs (fst (run fs0 stdout_ok))) p = node_at fs0 p) = (13 \<notin> set t) \<and>
         (''Fixed '' @ p) \<in> set (console (fst (run fs0 stdout_ok)))"
proof -
  let ?final = "fst (run fs0 stdout_ok)"
  from assms(4,5) have 1: "patch (universal_newlines t) = universal_newlines t"
    by (rule not_ends_with_closer_identity)
  from assms(2,3) have "open_read fs0 p = Returns (universal_newlines t)"
    by (simp add: open_read_def)
  from run_writes [OF assms(6,1) this] have 2: "OpenWrite p \<in> set (opened ?final)" .
  from run_unchanged [OF assms(6,1,2,3) 1, of stdout_ok] run_node_at [OF assms(2), of stdout_ok]
  have 3: "node_at (fs ?final) p = Some (Regular (Text (universal_newlines t)) True True)"
    by simp
  from assms(2,3) have "node_at fs0 p = Some (Regular (Text t) True True)"
    by (simp add: node_at_def)
  with 3 have 4: "(node_at (fs ?final) p = node_at fs0 p) = (13 \<notin> set t)"
    by (simp add: universal_newlines_eq_iff)
  from report_fixed [OF assms(2,3)] have "(''Fixed '' @ p) \<in> set (report fs0 p)" by simp
  from run_line [OF assms(6,1) this] have 5: "(''Fixed '' @ p) \<in> set (console ?final)" .
  from 1 2 3 4 5 show ?thesis by simp
qed

theorem unmatched_file_is_rewritten_as_read_witness:
  "''api/units/index.ts'' \<in> set files \<and>
   resolve (fs_of [(''api/units/index.ts'', Link 0)] [Regular (Text (lit ''x'')) True True])
     ''api/units/index.ts'' = Inr 0 \<and>
   \<not> contains_auth_check (universal_newlines (lit ''x'')) \<and>
   \<not> ends_with_closer (universal_newlines (lit ''x'')) \<and>
   list_all (\<lambda>q. open_read (fs_of [(''api/units/index.ts'', Link 0)]
                               [Regular (Text (lit ''x'')) True True]) q \<noteq> Blocks) files \<and>
   patch (lit ''x'') = lit ''x'' \<and>
   node_at (fs (fst (run (fs_of [(''api/units/index.ts'', Link 0)]
                            [Regular (Text (lit ''x'')) True True]) True)))
       ''api/units/index.ts'' =
     Some (Regular (Text (lit ''x'')) True True) \<and>
   OpenWrite ''api/units/index.ts''
     \<in> set (opened (fst (run (fs_of [(''api/units/index.ts'', Link 0)]
                                 [Regular (Text (lit ''x'')) True True]) True))) \<and>
   ''Fixed api/units/index.ts''
     \<in> set (console (fst (run (fs_of [(''api/units/index.ts'', Link 0)]
                                  [Regular (Text (lit ''x'')) True True]) True)))"
proof -
  let ?f = "fs_of [(''api/units/index.ts'', Link 0)] [Regular (Text (lit ''x'')) True True]"
  have u: "universal_newlines (lit ''x'') = lit ''x''" by (simp add: lit_def)
  have "search auth_check_pattern False (lit ''x'') = None"
    by (rule no_four_no_match) (simp add: four_lit)
  then have 4: "\<not> contains_auth_check (universal_newlines (lit ''x''))"
    by (simp add: contains_auth_check_def u)
  have 5: "\<not> ends_with_closer (universal_newlines (lit ''x''))"
    by (simp add: ends_with_closer_def lit_def isspace_def)
  have 1: "''api/units/index.ts'' \<in> set files" by (simp add: files_def)
  have 2: "resolve ?f ''api/units/index.ts'' = Inr 0" by (simp add: resolve_def)
  have 3: "inodes ?f ! 0 = Regular (Text (lit ''x'')) True True" by simp
  have 6: "list_all (\<lambda>q. open_read ?f q \<noteq> Blocks) files"
    by (simp add: files_def open_read_def resolve_def)
  from unmatched_file_is_rewritten_as_read [OF 1 2 3 4 5 6, of True] 1 2 4 5 6 u
  show ?thesis by simp
qed

theorem unmatched_file_is_rewritten_as_read_counterexample:
  "\<not> contains_auth_check [97, 13, 10, 98] \<and> \<not> ends_with_closer [97, 13, 10, 98] \<and>
   node_at (fs_of [(''api/tenants/index.ts'', Link 0)]
              [Regular (Text [97, 13, 10, 98]) True True]) ''api/tenants/index.ts'' =
     Some (Regular (Text [97, 13, 10, 98]) True True) \<and>
   node_at (fs (fst (run (fs_of [(''api/tenants/index.ts'', Link 0)]
                            [Regular (Text [97, 13, 10, 98]) True True]) True)))
       ''api/tenants/index.ts'' =
     Some (Regular (Text [97, 10, 98]) True True) \<and>
   \<not> contains_auth_check [120, 13, 125] \<and> \<not> ends_with_closer [120, 13, 125] \<and>
   node_at (fs (fst (run (fs_of [(''api/tenants/index.ts'', Link 0)]
                            [Regular (Text [120, 13, 125]) True True]) True)))
       ''api/tenants/index.ts'' =
     Some (Regular (Text ([120] @ finally_block @ closer)) True True)"
proof -
  let ?f = "fs_of [(''api/tenants/index.ts'', Link 0)] [Regular (Text [97, 13, 10, 98]) True True]"
  let ?g = "fs_of [(''api/tenants/index.ts'', Link 0)] [Regular (Text [120, 13, 125]) True True]"
  have four: "\<not> contains_auth_check s" if "52 \<notin> set s" for s
    using that contains_auth_check_four [of s] by blast
  have 1: "\<not> contains_auth_check [97, 13, 10, 98]" by (rule four) simp
  have 2: "\<not> ends_with_closer [97, 13, 10, 98]" by (simp add: ends_with_closer_def isspace_def)
  have 3: "node_at ?f ''api/tenants/index.ts'' = Some (Regular (Text [97, 13, 10, 98]) True True)"
    by (simp add: node_at_def resolve_def)
  have t: "''api/tenants/index.ts'' \<in> set files" by (simp add: files_def)
  have nbf: "list_all (\<lambda>q. open_read ?f q \<noteq> Blocks) files"
    by (simp add: files_def open_read_def resolve_def)
  have rf: "resolve ?f ''api/tenants/index.ts'' = Inr 0" by (simp add: resolve_def)
  have nf: "inodes ?f ! 0 = Regular (Text [97, 13, 10, 98]) True True" by simp
  have uf: "universal_newlines [97, 13, 10, 98] = [97, 10, 98]" by simp
  have "patch [97, 10, 98] = [97, 10, 98]"
    by (rule no_four_identity) (simp_all add: ends_with_closer_def isspace_def)
  with uf have "patch (universal_newlines [97, 13, 10, 98]) = universal_newlines [97, 13, 10, 98]"
    by simp
  from run_unchanged [OF nbf t rf nf this, of True] run_node_at [OF rf, of True] uf
  have 4: "node_at (fs (fst (run ?f True))) ''api/tenants/index.ts'' =
      Some (Regular (Text [97, 10, 98]) True True)" by simp
  have 5: "\<not> contains_auth_check [120, 13, 125]" by (rule four) simp
  have 6: "\<not> ends_with_closer [120, 13, 125]" by (simp add: ends_with_closer_def isspace_def)
  have nbg: "list_all (\<lambda>q. open_read ?g q \<noteq> Blocks) files"
    by (simp add: files_def open_read_def resolve_def)
  have rg: "resolve ?g ''api/tenants/index.ts'' = Inr 0" by (simp add: resolve_def)
  have ng: "inodes ?g ! 0 = Regular (Text [120, 13, 125]) True True" by simp
  have xg: "list_all (\<lambda>q. q = ''api/tenants/index.ts'' \<or> resolve ?g q \<noteq> Inr 0) files"
    by (simp add: files_def resolve_def)
  have ug: "universal_newlines [120, 13, 125] = [120] @ closer" by (simp add: closer_def lit_def)
  have "patch ([120] @ closer) = [120] @ finally_block @ closer"
    by (rule patch_closer) simp
  with run_patched [OF nbg t rg ng xg, of True] run_node_at [OF rg, of True] ug
  have 7: "node_at (fs (fst (run ?g True))) ''api/tenants/index.ts'' =
      Some (Regular (Text ([120] @ finally_block @ closer)) True True)" by simp
  from 1 2 3 4 5 6 7 show ?thesis by simp
qed

end
